theory Spec2Isabelle
  imports Complex_Main "HOL-Library.Multiset" "HOL-Library.Code_Target_Nat"
begin

section \<open>Values of the host language\<close>

text \<open>
  A string of the program is a sequence of UTF-16 code units; a code unit is modelled as a
  natural number, so that the Vietnamese keywords of the column mapper and every white
  space character of \<^verbatim>\<open>trim\<close> can be written down. \<open>js\<close> turns an ASCII
  literal into such a string.

  A \<^verbatim>\<open>number\<close> is \<open>NaN\<close>, one of the two infinities, or a finite value, held as
  an exact rational. The functions that read a number from a string round it to the
  nearest double as the language does (\<open>round_double\<close> below: 53 significant bits, ties
  to even, gradual underflow, overflow to infinity). Addition and subtraction of two
  finite values are exact here, where the program rounds the result to a double; the sign
  of a difference, which is all that the sorts use, is the same. Negative zero is not
  told apart from zero.
\<close>

type_synonym jstring = "nat list"

definition js :: "string \<Rightarrow> jstring" where
  "js s = map of_char s"

datatype number = NaN | Num rat | PosInf | NegInf

abbreviation QUOTE :: nat where "QUOTE \<equiv> 34"
abbreviation COMMA :: nat where "COMMA \<equiv> 44"
abbreviation DOT :: nat where "DOT \<equiv> 46"

definition is_digit :: "nat \<Rightarrow> bool" where
  "is_digit c = (48 \<le> c \<and> c \<le> 57)"

text \<open>White space and line terminators of ECMAScript, as \<^verbatim>\<open>trim\<close> strips them.\<close>

definition is_white_space :: "nat \<Rightarrow> bool" where
  "is_white_space c =
     (c = 9 \<or> c = 10 \<or> c = 11 \<or> c = 12 \<or> c = 13 \<or> c = 32 \<or> c = 160 \<or> c = 5760
      \<or> (8192 \<le> c \<and> c \<le> 8202) \<or> c = 8232 \<or> c = 8233 \<or> c = 8239 \<or> c = 8287
      \<or> c = 12288 \<or> c = 65279)"

definition trimStart :: "jstring \<Rightarrow> jstring" where
  "trimStart s = dropWhile is_white_space s"

definition trimEnd :: "jstring \<Rightarrow> jstring" where
  "trimEnd s = rev (dropWhile is_white_space (rev s))"

definition trim :: "jstring \<Rightarrow> jstring" where
  "trim s = trimEnd (trimStart s)"

text \<open>Truthiness of a number: \<open>0\<close> and \<open>NaN\<close> are falsy.\<close>

definition num_truthy :: "number \<Rightarrow> bool" where
  "num_truthy n = (n \<noteq> NaN \<and> n \<noteq> Num 0)"

definition digits_value :: "jstring \<Rightarrow> nat" where
  "digits_value ds = foldl (\<lambda>a c. 10 * a + (c - 48)) 0 ds"

subsection \<open>The nearest double\<close>

text \<open>
  \<open>bit_length k\<close> is the number of binary digits of a positive integer, \<open>floor_log2 a\<close>
  the exponent \<open>e\<close> with \<open>2^e \<le> a < 2^(e+1)\<close> of a positive rational. A double of
  exponent \<open>e\<close> is a multiple of \<open>2^(e-52)\<close>; the exponent of a subnormal is -1022.
  \<open>round_double r\<close> is the multiple nearest to \<open>r\<close>, the even one of two that are equally
  near, and an infinity when that multiple is \<open>2^1024\<close> or more.
\<close>

function bit_length :: "int \<Rightarrow> int" where
  "bit_length k = (if k \<le> 0 then 0 else 1 + bit_length (k div 2))"
  by auto
termination by (relation "measure nat") auto

declare bit_length.simps [simp del]

definition pow2 :: "int \<Rightarrow> rat" where
  "pow2 k = (if 0 \<le> k then 2 ^ nat k else 1 / 2 ^ nat (- k))"

definition round_half_even :: "rat \<Rightarrow> int" where
  "round_half_even x =
     (let f = \<lfloor>x\<rfloor>; d = x - of_int f
      in if d < 1 / 2 then f else if 1 / 2 < d then f + 1 else if even f then f else f + 1)"

definition floor_log2 :: "rat \<Rightarrow> int" where
  "floor_log2 a =
     (if 1 \<le> a then bit_length \<lfloor>a\<rfloor> - 1 else - bit_length (\<lceil>1 / a\<rceil> - 1))"

definition round_double :: "rat \<Rightarrow> number" where
  "round_double r =
     (if r = 0 then Num 0
      else let a = \<bar>r\<bar>;
               e = max (floor_log2 a) (- 1022);
               ulp = pow2 (e - 52);
               m = round_half_even (a / ulp)
           in if 1024 \<le> e \<or> (e = 1023 \<and> 9007199254740992 \<le> m)
              then (if 0 < r then PosInf else NegInf)
              else Num (if 0 < r then of_int m * ulp else - (of_int m * ulp)))"

text \<open>
  \<^verbatim>\<open>parseInt(s, 10)\<close>: leading white space is skipped, a sign is read, and the longest
  prefix of decimal digits is read as an integer; the result is the double nearest to that
  integer, and \<open>NaN\<close> when there is no digit. (The language allows an implementation to
  read the digits after the twentieth significant one as zeros; the model takes the
  nearest double of the whole integer, as the engines in use compute it.)
\<close>

definition parseInt10 :: "jstring \<Rightarrow> number" where
  "parseInt10 s =
     (let t = trimStart s;
          neg = (t \<noteq> [] \<and> hd t = 45);
          u = (if t \<noteq> [] \<and> (hd t = 43 \<or> hd t = 45) then tl t else t);
          z = takeWhile is_digit u
      in if z = [] then NaN
         else round_double (if neg then - of_nat (digits_value z) else of_nat (digits_value z)))"

subsection \<open>The environment of a run\<close>

text \<open>
  What the program's environment decides is collected in \<open>js_env\<close>:
  \<^item> \<open>legacy_parse\<close>: what \<^verbatim>\<open>new Date(s)\<close> makes of a string that is not in the
    date-time string format of the language (the language leaves it to the implementation).
    The two shapes the program itself produces and consumes, \<^verbatim>\<open>YYYY-MM-DD\<close> and
    \<^verbatim>\<open>YYYY-MM-DDTHH:mm:ss.sssZ\<close>, are parsed by \<open>iso_parse\<close> below as the language
    defines; every other string is handed to \<open>legacy_parse\<close>.
  \<^item> \<open>localTZA\<close>: the offset of local time from UTC in milliseconds (taken as constant).
  \<^item> \<open>now\<close>: the time value of \<^verbatim>\<open>new Date()\<close>.
  \<^item> \<open>lower_other\<close>: \<^verbatim>\<open>toLowerCase\<close> on the strings that hold a code unit outside
    Basic Latin, Latin-1 and the precomposed letters of Vietnamese (the case mapping of
    the whole of Unicode is not written out here; see \<open>toLowerCase\<close>).
\<close>

record js_env =
  legacy_parse :: "jstring \<Rightarrow> int option"
  localTZA :: int
  now :: int
  lower_other :: "jstring \<Rightarrow> jstring"

subsection \<open>Arithmetic and comparison of numbers\<close>

text \<open>
  An operation with \<open>NaN\<close> gives \<open>NaN\<close>, as does the sum of the two infinities and
  the difference of an infinity and itself; a comparison with \<open>NaN\<close> is false.
\<close>

fun num_add :: "number \<Rightarrow> number \<Rightarrow> number" where
  "num_add (Num a) (Num b) = Num (a + b)"
| "num_add NaN _ = NaN"
| "num_add _ NaN = NaN"
| "num_add PosInf NegInf = NaN"
| "num_add NegInf PosInf = NaN"
| "num_add PosInf _ = PosInf"
| "num_add _ PosInf = PosInf"
| "num_add NegInf _ = NegInf"
| "num_add _ NegInf = NegInf"

fun num_sub :: "number \<Rightarrow> number \<Rightarrow> number" where
  "num_sub (Num a) (Num b) = Num (a - b)"
| "num_sub NaN _ = NaN"
| "num_sub _ NaN = NaN"
| "num_sub PosInf PosInf = NaN"
| "num_sub NegInf NegInf = NaN"
| "num_sub PosInf _ = PosInf"
| "num_sub NegInf _ = NegInf"
| "num_sub _ PosInf = NegInf"
| "num_sub _ NegInf = PosInf"

fun num_le :: "number \<Rightarrow> number \<Rightarrow> bool" where
  "num_le (Num a) (Num b) = (a \<le> b)"
| "num_le NaN _ = False"
| "num_le _ NaN = False"
| "num_le NegInf _ = True"
| "num_le _ PosInf = True"
| "num_le _ _ = False"

fun num_positive :: "number \<Rightarrow> bool" where
  "num_positive (Num a) = (0 < a)"
| "num_positive PosInf = True"
| "num_positive _ = False"

fun isFinite :: "number \<Rightarrow> bool" where
  "isFinite (Num a) = True"
| "isFinite _ = False"

definition sum_numbers :: "number list \<Rightarrow> number" where
  "sum_numbers ns = foldl num_add (Num 0) ns"

text \<open>\<^verbatim>\<open>Number.MAX_VALUE\<close>, the largest finite double.\<close>

definition MAX_VALUE :: number where
  "MAX_VALUE = Num (of_int (2 ^ 1024 - 2 ^ 971))"

subsection \<open>Array.prototype.sort\<close>

text \<open>
  \<^verbatim>\<open>xs.sort(cmp)\<close> is a stable sort: \<open>a\<close> is moved behind \<open>b\<close> only when
  \<open>cmp a b\<close> is positive, and a comparator result of \<open>NaN\<close> counts as 0. For a
  comparator that is a consistent ordering of the elements this determines the result, and
  \<open>js_sort\<close> (a stable insertion sort) computes it; that is the case whenever the sort
  keys are finite numbers, and the statements below about the order of a sorted list are
  made under that condition. For an inconsistent comparator (one that returns \<open>NaN\<close> on
  some pairs and a sign on others) the language leaves the order to the implementation,
  and \<open>js_sort\<close> is then one possible outcome; that such a result is not ranked is
  shown below for every arrangement of the same elements.
\<close>

fun insert_sorted :: "('a \<Rightarrow> 'a \<Rightarrow> number) \<Rightarrow> 'a \<Rightarrow> 'a list \<Rightarrow> 'a list" where
  "insert_sorted cmp x [] = [x]"
| "insert_sorted cmp x (y # ys) =
     (if num_positive (cmp x y) then y # insert_sorted cmp x ys else x # y # ys)"

definition js_sort :: "('a \<Rightarrow> 'a \<Rightarrow> number) \<Rightarrow> 'a list \<Rightarrow> 'a list" where
  "js_sort cmp xs = foldr (insert_sorted cmp) xs []"

subsection \<open>Strings\<close>

text \<open>
  \<^verbatim>\<open>toLowerCase\<close>. On a string of code units of Basic Latin, Latin-1 and the
  precomposed letters of Vietnamese (A-breve, D-stroke, I-tilde, U-tilde, O-horn, U-horn
  and the block U+1EA0..U+1EF9, each with its lower-case partner) the mapping of the
  language works unit by unit and without regard to context, and is written out as
  \<open>lower_unit\<close>. For any other string the result is the environment's \<open>lower_other\<close>.
\<close>

definition lower_unit :: "nat \<Rightarrow> nat" where
  "lower_unit c =
     (if 65 \<le> c \<and> c \<le> 90 then c + 32
      else if 192 \<le> c \<and> c \<le> 222 \<and> c \<noteq> 215 then c + 32
      else if c = 258 \<or> c = 272 \<or> c = 296 \<or> c = 360 \<or> c = 416 \<or> c = 431 then c + 1
      else if 7840 \<le> c \<and> c \<le> 7929 \<and> even c then c + 1
      else c)"

definition lower_known :: "nat \<Rightarrow> bool" where
  "lower_known c =
     (c < 256 \<or> c = 258 \<or> c = 259 \<or> c = 272 \<or> c = 273 \<or> c = 296 \<or> c = 297
      \<or> c = 360 \<or> c = 361 \<or> c = 416 \<or> c = 417 \<or> c = 431 \<or> c = 432
      \<or> (7840 \<le> c \<and> c \<le> 7929))"

definition toLowerCase :: "js_env \<Rightarrow> jstring \<Rightarrow> jstring" where
  "toLowerCase env s = (if list_all lower_known s then map lower_unit s else lower_other env s)"

text \<open>\<^verbatim>\<open>s.includes(k)\<close>: \<open>k\<close> occurs in \<open>s\<close> as a contiguous substring.\<close>

fun str_includes :: "jstring \<Rightarrow> jstring \<Rightarrow> bool" where
  "str_includes [] k = (k = [])"
| "str_includes (c # cs) k = (take (length k) (c # cs) = k \<or> str_includes cs k)"

text \<open>The decimal digits of a natural number, as template literals print an index.\<close>

fun show_nat :: "nat \<Rightarrow> jstring" where
  "show_nat n = (if n < 10 then [48 + n] else show_nat (n div 10) @ [48 + n mod 10])"

text \<open>\<^verbatim>\<open>s.split(sep)\<close> for a separator of one code unit.\<close>

fun split_unit :: "nat \<Rightarrow> jstring \<Rightarrow> jstring list" where
  "split_unit sep [] = [[]]"
| "split_unit sep (c # cs) =
     (if c = sep then [] # split_unit sep cs
      else (case split_unit sep cs of f # fs \<Rightarrow> (c # f) # fs | [] \<Rightarrow> [[c]]))"

section \<open>Field normalizers (services/dataService)\<close>

text \<open>
  \<^verbatim>\<open>
  const parseNumber = (value: string): number => {
    if (!value) return 1;
    const cleanStr = value.replace(/[^0-9]/g, '');
    return parseInt(cleanStr, 10) || 1;
  };
  \<close>
\<close>

definition parseNumber :: "jstring \<Rightarrow> number" where
  "parseNumber v =
     (if v = [] then Num 1
      else let cleanStr = filter is_digit v;
               n = parseInt10 cleanStr
           in if num_truthy n then n else Num 1)"

text \<open>
  \<^verbatim>\<open>parseFloat\<close> reads the longest prefix that is a decimal literal and gives the
  double nearest to its value. The strings that reach it here hold only digits and dots
  (see \<open>parseCurrency\<close>), so the sign, the exponent, leading white space and the word
  Infinity are left out of its model: digits, then optionally a dot and digits; \<open>NaN\<close>
  when neither part has a digit.
\<close>

definition parseFloat :: "jstring \<Rightarrow> number" where
  "parseFloat s =
     (let ip = takeWhile is_digit s;
          r = dropWhile is_digit s;
          fp = (if r \<noteq> [] \<and> hd r = DOT then takeWhile is_digit (tl r) else [])
      in if ip = [] \<and> fp = [] then NaN
         else round_double (of_nat (digits_value ip) + of_nat (digits_value fp) / 10 ^ length fp))"

text \<open>
  \<^verbatim>\<open>
  const parseCurrency = (value: string): number => {
    if (!value) return 0;
    const cleanStr = value.replace(/[^0-9.,]/g, '');
    if (!cleanStr) return 0;
    if (cleanStr.includes('.') && !cleanStr.includes(',')) {
      return parseFloat(cleanStr.replace(/\./g, ''));
    }
    if (cleanStr.includes(',') && !cleanStr.includes('.')) {
      return parseFloat(cleanStr.replace(/,/g, ''));
    }
    return parseFloat(cleanStr.replace(/\./g, '').replace(/,/g, '.'));
  };
  \<close>
\<close>

definition parseCurrency :: "jstring \<Rightarrow> number" where
  "parseCurrency v =
     (if v = [] then Num 0
      else let cleanStr = filter (\<lambda>c. is_digit c \<or> c = DOT \<or> c = COMMA) v
           in if cleanStr = [] then Num 0
              else if DOT \<in> set cleanStr \<and> COMMA \<notin> set cleanStr
                then parseFloat (filter (\<lambda>c. c \<noteq> DOT) cleanStr)
              else if COMMA \<in> set cleanStr \<and> DOT \<notin> set cleanStr
                then parseFloat (filter (\<lambda>c. c \<noteq> COMMA) cleanStr)
              else parseFloat (map (\<lambda>c. if c = COMMA then DOT else c)
                                   (filter (\<lambda>c. c \<noteq> DOT) cleanStr)))"

section \<open>Delimited-text splitter (services/dataService)\<close>

text \<open>
  \<^verbatim>\<open>
  const parseCSVLine = (text: string) => {
    const result = [];
    let curValue = '';
    let inQuote = false;
    for (let i = 0; i < text.length; i++) {
      const char = text[i];
      if (char === '"') { inQuote = !inQuote; }
      else if (char === ',' && !inQuote) { result.push(curValue); curValue = ''; }
      else { curValue += char; }
    }
    result.push(curValue);
    return result.map(v => v.trim().replace(/^"|"$/g, '').trim());
  };
  \<close>
  The loop is \<open>split_loop\<close>, with the three variables as arguments. The replacement
  \<^verbatim>\<open>/^"|"$/g\<close> deletes a quote at the start and a quote at the end, each when present.
\<close>

fun split_loop :: "jstring \<Rightarrow> jstring list \<Rightarrow> jstring \<Rightarrow> bool \<Rightarrow> jstring list" where
  "split_loop [] result curValue inQuote = result @ [curValue]"
| "split_loop (c # cs) result curValue inQuote =
     (if c = QUOTE then split_loop cs result curValue (\<not> inQuote)
      else if c = COMMA \<and> \<not> inQuote then split_loop cs (result @ [curValue]) [] inQuote
      else split_loop cs result (curValue @ [c]) inQuote)"

definition strip_quote_ends :: "jstring \<Rightarrow> jstring" where
  "strip_quote_ends s =
     (let s1 = (if s \<noteq> [] \<and> hd s = QUOTE then tl s else s)
      in if s1 \<noteq> [] \<and> last s1 = QUOTE then butlast s1 else s1)"

definition parseCSVLine :: "jstring \<Rightarrow> jstring list" where
  "parseCSVLine line =
     map (\<lambda>v. trim (strip_quote_ends (trim v))) (split_loop line [] [] False)"

subsection \<open>The splitter as the specification words it\<close>

text \<open>
  Written from the specification, by positions: a position is inside a quoted field when
  an odd number of quote characters stands before it; the line is cut at the commas that
  are not inside a quoted field; each field is trimmed, loses one pair of enclosing quotes
  if it has one, and is trimmed again. The specification does not say that a quote
  character is taken out of its field, so in \<open>splitter_spec\<close> it stays there.

  \<open>splitter_unquoted\<close> differs in that one point: every quote character is taken out
  of its field, and the field is then trimmed.
\<close>

definition quotes_before :: "jstring \<Rightarrow> nat \<Rightarrow> nat" where
  "quotes_before line i = length (filter (\<lambda>c. c = QUOTE) (take i line))"

definition inside_quotes :: "jstring \<Rightarrow> nat \<Rightarrow> bool" where
  "inside_quotes line i = odd (quotes_before line i)"

fun split_on :: "('a \<Rightarrow> bool) \<Rightarrow> 'a list \<Rightarrow> 'a list list" where
  "split_on P [] = [[]]"
| "split_on P (x # xs) =
     (if P x then [] # split_on P xs
      else (case split_on P xs of f # fs \<Rightarrow> (x # f) # fs | [] \<Rightarrow> [[x]]))"

definition strip_enclosing_pair :: "jstring \<Rightarrow> jstring" where
  "strip_enclosing_pair s =
     (if 2 \<le> length s \<and> hd s = QUOTE \<and> last s = QUOTE then butlast (tl s) else s)"

definition pieces :: "jstring \<Rightarrow> jstring list" where
  "pieces line =
     map (map fst)
       (split_on (\<lambda>(c, inside). c = COMMA \<and> \<not> inside)
          (zip line (map (inside_quotes line) [0..<length line])))"

definition splitter_spec :: "jstring \<Rightarrow> jstring list" where
  "splitter_spec line = map (\<lambda>f. trim (strip_enclosing_pair (trim f))) (pieces line)"

definition splitter_unquoted :: "jstring \<Rightarrow> jstring list" where
  "splitter_unquoted line = map (\<lambda>f. trim (filter (\<lambda>c. c \<noteq> QUOTE) f)) (pieces line)"

text \<open>Two auxiliary views of the loop, used in the proofs only.\<close>

fun quote_flags :: "bool \<Rightarrow> jstring \<Rightarrow> bool list" where
  "quote_flags q [] = []"
| "quote_flags q (c # cs) = q # quote_flags (if c = QUOTE then \<not> q else q) cs"

fun raw_fields :: "bool \<Rightarrow> jstring \<Rightarrow> jstring list" where
  "raw_fields q [] = [[]]"
| "raw_fields q (c # cs) =
     (if c = QUOTE then raw_fields (\<not> q) cs
      else if c = COMMA \<and> \<not> q then [] # raw_fields q cs
      else (case raw_fields q cs of f # fs \<Rightarrow> (c # f) # fs | [] \<Rightarrow> [[c]]))"

section \<open>Dates of the host language\<close>

text \<open>
  A time value is a number of milliseconds since 1970-01-01T00:00:00Z, at most
  8.64e15 in absolute value; an invalid date has the time value \<open>NaN\<close>, here \<open>None\<close>.

  The parsing of date strings outside the two shapes of \<open>iso_parse\<close>, the local time
  zone and the clock are taken from the environment (\<open>legacy_parse\<close>, \<open>localTZA\<close>,
  \<open>now\<close>).
\<close>

definition msPerDay :: int where
  "msPerDay = 86400000"

definition valid_time :: "int \<Rightarrow> bool" where
  "valid_time t = (\<bar>t\<bar> \<le> 8640000000000000)"

definition TimeClip :: "int \<Rightarrow> int option" where
  "TimeClip t = (if valid_time t then Some t else None)"

definition InLeapYear :: "int \<Rightarrow> bool" where
  "InLeapYear y = (y mod 4 = 0 \<and> (y mod 100 \<noteq> 0 \<or> y mod 400 = 0))"

definition DaysInMonth :: "int \<Rightarrow> int \<Rightarrow> int" where
  "DaysInMonth y m =
     (if m = 2 then (if InLeapYear y then 29 else 28)
      else if m = 4 \<or> m = 6 \<or> m = 9 \<or> m = 11 then 30 else 31)"

text \<open>The day number of a calendar date (proleptic Gregorian, month 1..12), day 0 being
  1970-01-01, and the calendar date of a day number.\<close>

definition days_from_civil :: "int \<Rightarrow> int \<Rightarrow> int \<Rightarrow> int" where
  "days_from_civil y m d =
     (let y' = (if m \<le> 2 then y - 1 else y);
          era = y' div 400;
          yoe = y' - era * 400;
          doy = (153 * (if 2 < m then m - 3 else m + 9) + 2) div 5 + d - 1;
          doe = yoe * 365 + yoe div 4 - yoe div 100 + doy
      in era * 146097 + doe - 719468)"

definition civil_from_days :: "int \<Rightarrow> int \<times> int \<times> int" where
  "civil_from_days z =
     (let z' = z + 719468;
          era = z' div 146097;
          doe = z' - era * 146097;
          yoe = (doe - doe div 1460 + doe div 36524 - doe div 146096) div 365;
          doy = doe - (365 * yoe + yoe div 4 - yoe div 100);
          mp = (5 * doy + 2) div 153;
          d = doy - (153 * mp + 2) div 5 + 1;
          m = (if mp < 10 then mp + 3 else mp - 9);
          y = yoe + era * 400 + (if m \<le> 2 then 1 else 0)
      in (y, m, d))"

definition digits_at :: "jstring \<Rightarrow> nat \<Rightarrow> nat \<Rightarrow> int option" where
  "digits_at s i n =
     (let ds = take n (drop i s)
      in if length ds = n \<and> list_all is_digit ds then Some (int (digits_value ds)) else None)"

definition iso_date_part :: "jstring \<Rightarrow> int option" where
  "iso_date_part s =
     (case (digits_at s 0 4, digits_at s 5 2, digits_at s 8 2) of
        (Some y, Some m, Some d) \<Rightarrow>
          if take 1 (drop 4 s) = [45] \<and> take 1 (drop 7 s) = [45]
             \<and> 1 \<le> m \<and> m \<le> 12 \<and> 1 \<le> d \<and> d \<le> DaysInMonth y m
          then Some (days_from_civil y m d) else None
      | _ \<Rightarrow> None)"

definition iso_time_part :: "jstring \<Rightarrow> int option" where
  "iso_time_part s =
     (case (digits_at s 11 2, digits_at s 14 2, digits_at s 17 2, digits_at s 20 3) of
        (Some h, Some mi, Some sec, Some ms) \<Rightarrow>
          if take 1 (drop 10 s) = [84] \<and> take 1 (drop 13 s) = [58] \<and> take 1 (drop 16 s) = [58]
             \<and> take 1 (drop 19 s) = [DOT] \<and> drop 23 s = [90]
             \<and> (h \<le> 23 \<or> (h = 24 \<and> mi = 0 \<and> sec = 0 \<and> ms = 0)) \<and> mi \<le> 59 \<and> sec \<le> 59
          then Some (h * 3600000 + mi * 60000 + sec * 1000 + ms) else None
      | _ \<Rightarrow> None)"

definition iso_parse :: "jstring \<Rightarrow> int option" where
  "iso_parse s =
     (if length s = 10 then map_option (\<lambda>day. day * msPerDay) (iso_date_part s)
      else if length s = 24 then
        (case (iso_date_part s, iso_time_part s) of
           (Some day, Some ms) \<Rightarrow> Some (day * msPerDay + ms)
         | _ \<Rightarrow> None)
      else None)"

text \<open>The time value of \<^verbatim>\<open>new Date(s)\<close>.\<close>

definition Date_parse :: "js_env \<Rightarrow> jstring \<Rightarrow> int option" where
  "Date_parse env s =
     (case iso_parse s of
        Some t \<Rightarrow> TimeClip t
      | None \<Rightarrow> (case legacy_parse env s of Some t \<Rightarrow> TimeClip t | None \<Rightarrow> None))"

text \<open>\<^verbatim>\<open>new Date(s).getTime()\<close> as a number.\<close>

definition getTime :: "js_env \<Rightarrow> jstring \<Rightarrow> number" where
  "getTime env s = (case Date_parse env s of Some t \<Rightarrow> Num (of_int t) | None \<Rightarrow> NaN)"

text \<open>
  \<^verbatim>\<open>new Date(s).setHours(h, m, s, ms)\<close>: the time of day of the \<^emph>\<open>local\<close> day that
  holds the instant is replaced; the result is the new time value.
\<close>

definition setHours :: "js_env \<Rightarrow> int option \<Rightarrow> int \<Rightarrow> int \<Rightarrow> int \<Rightarrow> int \<Rightarrow> number" where
  "setHours env tv h mi sec ms =
     (case tv of
        None \<Rightarrow> NaN
      | Some t \<Rightarrow>
          (let local = t + localTZA env;
               day = local div msPerDay;
               newDate = day * msPerDay + (h * 3600000 + mi * 60000 + sec * 1000 + ms)
           in case TimeClip (newDate - localTZA env) of
                Some u \<Rightarrow> Num (of_int u)
              | None \<Rightarrow> NaN))"

text \<open>\<^verbatim>\<open>toISOString\<close> throws a RangeError on an invalid date.\<close>

datatype error = RangeError | TypeError

definition pad_digits :: "nat \<Rightarrow> int \<Rightarrow> jstring" where
  "pad_digits n v = (let ds = show_nat (nat v) in replicate (n - length ds) 48 @ ds)"

definition iso_string :: "int \<Rightarrow> jstring" where
  "iso_string t =
     (case civil_from_days (t div msPerDay) of
        (y, m, d) \<Rightarrow>
          (let tod = t mod msPerDay;
               year = (if 0 \<le> y \<and> y \<le> 9999 then pad_digits 4 y
                       else (if y < 0 then [45] else [43]) @ pad_digits 6 \<bar>y\<bar>)
           in year @ [45] @ pad_digits 2 m @ [45] @ pad_digits 2 d @ [84]
              @ pad_digits 2 (tod div 3600000) @ [58]
              @ pad_digits 2 (tod mod 3600000 div 60000) @ [58]
              @ pad_digits 2 (tod mod 60000 div 1000) @ [DOT]
              @ pad_digits 3 (tod mod 1000) @ [90]))"

definition toISOString :: "int option \<Rightarrow> error + jstring" where
  "toISOString tv = (case tv of None \<Rightarrow> Inl RangeError | Some t \<Rightarrow> Inr (iso_string t))"

text \<open>The time value of \<^verbatim>\<open>new Date()\<close>.\<close>

definition Date_now :: "js_env \<Rightarrow> int option" where
  "Date_now env = TimeClip (now env)"

section \<open>Orders, filter, grouping and aggregation (App)\<close>

text \<open>
  Modelled from the spec: the type declarations of \<^verbatim>\<open>types.ts\<close> (Order, DailyStat),
  which are imported by the sources but are not among them. The fields are those the
  sources read and write. \<open>order_id\<close> is the field \<^verbatim>\<open>id\<close>. An order carries all of
  its fields, as the record builder and the mock generator produce it; an absent optional
  string is the empty string. The field \<^verbatim>\<open>subOrders\<close> exists on grouped records only.
\<close>

record DailyStat =
  date :: jstring
  orderCount :: number
  revenue :: number

record TopCustomer =
  name :: jstring
  totalOrders :: number
  totalRevenue :: number
  lastOrderDate :: jstring

record Order =
  order_id :: jstring
  date :: jstring
  amount :: number
  quantity :: number
  customerName :: jstring
  details :: jstring
  facebookLink :: jstring
  originalData :: "(jstring \<times> jstring) list"

record GroupedOrder = Order +
  subOrders :: "Order list"

subsection \<open>Date-range filter\<close>

text \<open>
  \<^verbatim>\<open>
  const filteredOrders = useMemo(() => {
    if (!startDate && !endDate) return orders;
    const start = startDate ? new Date(startDate).setHours(0,0,0,0) : 0;
    const end = endDate ? new Date(endDate).setHours(23,59,59,999) : Number.MAX_VALUE;
    return orders.filter(order => {
      const orderDate = new Date(order.date).getTime();
      return orderDate >= start && orderDate <= end;
    });
  }, [orders, startDate, endDate]);
  \<close>
\<close>

definition filter_start :: "js_env \<Rightarrow> jstring \<Rightarrow> number" where
  "filter_start env startDate =
     (if startDate \<noteq> [] then setHours env (Date_parse env startDate) 0 0 0 0 else Num 0)"

definition filter_end :: "js_env \<Rightarrow> jstring \<Rightarrow> number" where
  "filter_end env endDate =
     (if endDate \<noteq> [] then setHours env (Date_parse env endDate) 23 59 59 999
      else MAX_VALUE)"

definition filteredOrders :: "js_env \<Rightarrow> jstring \<Rightarrow> jstring \<Rightarrow> Order list \<Rightarrow> Order list" where
  "filteredOrders env startDate endDate orders =
     (if startDate = [] \<and> endDate = [] then orders
      else filter (\<lambda>order.
                     let orderDate = getTime env (date order)
                     in num_le (filter_start env startDate) orderDate
                        \<and> num_le orderDate (filter_end env endDate))
                  orders)"

subsection \<open>Grouping by customer\<close>

text \<open>
  \<^verbatim>\<open>
  const groupedOrders = useMemo(() => {
    const groups: { [key: string]: Order } = {};
    const sortedRaw = [...filteredOrders].sort((a,b) =>
        new Date(a.date).getTime() - new Date(b.date).getTime());
    sortedRaw.forEach(order => {
      const key = order.customerName.trim().toLowerCase();
      if (!groups[key]) {
        groups[key] = { ...order, subOrders: [order],
                        details: order.details ? `- ${order.details}` : '' };
      } else {
        const group = groups[key];
        group.amount += order.amount;
        group.quantity += order.quantity;
        group.date = order.date;
        group.customerName = order.customerName;
        if (order.details) {
            group.details = group.details
                ? `${group.details}\n- ${order.details}` : `- ${order.details}`;
        }
        if (!group.facebookLink && order.facebookLink) {
            group.facebookLink = order.facebookLink;
        }
        if (group.subOrders) { group.subOrders.push(order); }
      }
    });
    return Object.values(groups).sort((a, b) => b.amount - a.amount);
  }, [filteredOrders]);
  \<close>
\<close>

definition customer_key :: "js_env \<Rightarrow> Order \<Rightarrow> jstring" where
  "customer_key env order = toLowerCase env (trim (customerName order))"

definition sortedRaw :: "js_env \<Rightarrow> Order list \<Rightarrow> Order list" where
  "sortedRaw env orders =
     js_sort (\<lambda>a b. num_sub (getTime env (date a)) (getTime env (date b))) orders"

definition seed_group :: "Order \<Rightarrow> GroupedOrder" where
  "seed_group order =
     Order.extend
       (order\<lparr>details := (if details order \<noteq> [] then js ''- '' @ details order else [])\<rparr>)
       (GroupedOrder.fields [order])"

definition merge_order :: "GroupedOrder \<Rightarrow> Order \<Rightarrow> GroupedOrder" where
  "merge_order grp order =
     grp\<lparr>amount := num_add (amount grp) (amount order),
           quantity := num_add (quantity grp) (quantity order),
           date := date order,
           customerName := customerName order,
           details :=
             (if details order \<noteq> []
              then (if details grp \<noteq> []
                    then details grp @ [10] @ js ''- '' @ details order
                    else js ''- '' @ details order)
              else details grp),
           facebookLink :=
             (if facebookLink grp = [] \<and> facebookLink order \<noteq> []
              then facebookLink order else facebookLink grp),
           subOrders := subOrders grp @ [order]\<rparr>"

text \<open>
  \<^verbatim>\<open>groups\<close> is a plain object used as a dictionary. Its own properties are kept here in
  insertion order. A read \<^verbatim>\<open>groups[key]\<close> of a key that is not an own property goes
  to \<^verbatim>\<open>Object.prototype\<close>; a key is a result of \<^verbatim>\<open>toLowerCase\<close> and holds no
  upper-case letter, so two inherited members can be hit: \<^verbatim>\<open>constructor\<close> (the function Object) and \<^verbatim>\<open>__proto__\<close> (Object.prototype
  itself). Both are truthy objects, the else branch runs and writes the order's fields onto
  that object; \<^verbatim>\<open>group.subOrders\<close> is undefined there, and \<^verbatim>\<open>groups\<close> gains
  nothing. Writes to Object.prototype are seen by later reads: once \<^verbatim>\<open>date\<close> or
  \<^verbatim>\<open>details\<close> is a non-empty string there, a read of the key "date" or "details"
  finds that string, and the assignment \<^verbatim>\<open>group.amount += ...\<close> to a primitive string
  throws a TypeError (module code is strict). \<^verbatim>\<open>amount\<close> and \<^verbatim>\<open>quantity\<close>
  become NaN there, which is falsy, and the camel-case names cannot be a key.
  A run starts from an Object.prototype without these properties.
\<close>

record grouping_state =
  groups :: "(jstring \<times> GroupedOrder) list"
  proto_date :: "jstring option"
  proto_details :: "jstring option"

fun assoc_set :: "'k \<Rightarrow> 'v \<Rightarrow> ('k \<times> 'v) list \<Rightarrow> ('k \<times> 'v) list" where
  "assoc_set k v [] = [(k, v)]"
| "assoc_set k v ((k', v') # kvs) =
     (if k' = k then (k, v) # kvs else (k', v') # assoc_set k v kvs)"

definition string_truthy :: "jstring option \<Rightarrow> bool" where
  "string_truthy s = (case s of None \<Rightarrow> False | Some v \<Rightarrow> v \<noteq> [])"

definition pollute :: "grouping_state \<Rightarrow> Order \<Rightarrow> grouping_state" where
  "pollute st order =
     st\<lparr>proto_date := Some (date order),
        proto_details :=
          (if details order \<noteq> []
           then (if string_truthy (proto_details st)
                 then Some (the (proto_details st) @ [10] @ js ''- '' @ details order)
                 else Some (js ''- '' @ details order))
           else proto_details st)\<rparr>"

definition group_step :: "js_env \<Rightarrow> grouping_state \<Rightarrow> Order \<Rightarrow> error + grouping_state" where
  "group_step env st order =
     (let key = customer_key env order
      in case map_of (groups st) key of
           Some grp \<Rightarrow> Inr (st\<lparr>groups := assoc_set key (merge_order grp order) (groups st)\<rparr>)
         | None \<Rightarrow>
             if key = js ''constructor'' then Inr st
             else if key = js ''__proto__'' then Inr (pollute st order)
             else if key = js ''date'' \<and> string_truthy (proto_date st) then Inl TypeError
             else if key = js ''details'' \<and> string_truthy (proto_details st) then Inl TypeError
             else Inr (st\<lparr>groups := groups st @ [(key, seed_group order)]\<rparr>))"

fun group_loop :: "js_env \<Rightarrow> grouping_state \<Rightarrow> Order list \<Rightarrow> error + grouping_state" where
  "group_loop env st [] = Inr st"
| "group_loop env st (order # rest) =
     (case group_step env st order of Inl e \<Rightarrow> Inl e | Inr st' \<Rightarrow> group_loop env st' rest)"

text \<open>
  \<^verbatim>\<open>Object.values\<close> lists the own properties: first the keys that are array indices
  (canonical decimal numerals below \<open>2^32 - 1\<close>) in ascending numeric order, then the other
  keys in insertion order.
\<close>

definition is_array_index :: "jstring \<Rightarrow> bool" where
  "is_array_index k =
     (k \<noteq> [] \<and> list_all is_digit k \<and> (k = [48] \<or> hd k \<noteq> 48) \<and> digits_value k < 4294967295)"

definition object_values :: "(jstring \<times> 'v) list \<Rightarrow> 'v list" where
  "object_values props =
     map snd (sort_key (\<lambda>(k, v). digits_value k) (filter (\<lambda>(k, v). is_array_index k) props)
              @ filter (\<lambda>(k, v). \<not> is_array_index k) props)"

definition groupedOrders :: "js_env \<Rightarrow> Order list \<Rightarrow> error + GroupedOrder list" where
  "groupedOrders env orders =
     (case group_loop env \<lparr>groups = [], proto_date = None, proto_details = None\<rparr>
             (sortedRaw env orders) of
        Inl e \<Rightarrow> Inl e
      | Inr st \<Rightarrow>
          Inr (js_sort (\<lambda>a b. num_sub (amount b) (amount a)) (object_values (groups st))))"

subsection \<open>Daily statistics and top customers\<close>

text \<open>
  \<^verbatim>\<open>
  const dailyStats = useMemo(() => {
    const statsMap = new Map<string, DailyStat>();
    filteredOrders.forEach(order => {
      const dateKey = order.date.split('T')[0];
      const current = statsMap.get(dateKey) || { date: dateKey, orderCount: 0, revenue: 0 };
      current.orderCount += order.quantity;
      current.revenue += order.amount;
      statsMap.set(dateKey, current);
    });
    return Array.from(statsMap.values()).sort((a, b) =>
        new Date(a.date).getTime() - new Date(b.date).getTime());
  }, [filteredOrders]);

  const topCustomers = useMemo(() => {
    return groupedOrders.slice(0, 5).map(g => ({
        name: g.customerName, totalOrders: g.quantity,
        totalRevenue: g.amount, lastOrderDate: g.date }));
  }, [groupedOrders]);
  \<close>
  A \<^verbatim>\<open>Map\<close> keeps its entries in insertion order; \<^verbatim>\<open>split('T')[0]\<close> is the part of
  the string before the first \<^verbatim>\<open>T\<close>.
\<close>

definition date_key :: "Order \<Rightarrow> jstring" where
  "date_key order = takeWhile (\<lambda>c. c \<noteq> 84) (date order)"

definition stats_step :: "(jstring \<times> DailyStat) list \<Rightarrow> Order \<Rightarrow> (jstring \<times> DailyStat) list" where
  "stats_step statsMap order =
     (let dateKey = date_key order;
          current = (case map_of statsMap dateKey of
                       Some c \<Rightarrow> c
                     | None \<Rightarrow> \<lparr>DailyStat.date = dateKey, orderCount = Num 0, revenue = Num 0\<rparr>)
      in assoc_set dateKey
           (current\<lparr>orderCount := num_add (orderCount current) (quantity order),
                    revenue := num_add (revenue current) (amount order)\<rparr>)
           statsMap)"

definition dailyStats :: "js_env \<Rightarrow> Order list \<Rightarrow> DailyStat list" where
  "dailyStats env orders =
     js_sort (\<lambda>a b. num_sub (getTime env (DailyStat.date a)) (getTime env (DailyStat.date b)))
       (map snd (foldl stats_step [] orders))"

definition topCustomers :: "GroupedOrder list \<Rightarrow> TopCustomer list" where
  "topCustomers grouped =
     map (\<lambda>g. \<lparr>name = customerName g, totalOrders = quantity g,
                totalRevenue = amount g, lastOrderDate = date g\<rparr>)
         (take 5 grouped)"

subsection \<open>What the specification says of a grouped record\<close>

text \<open>
  Written from the specification: the details of a grouped record are the non-empty
  details of its sub-orders, each prefixed by a dash, joined by newlines; its link is the
  first non-empty link of its sub-orders. \<open>grouped_ok\<close> collects the invariant of a
  grouped record, \<open>loop_inv\<close> is the invariant of the grouping loop after the orders
  \<open>seen\<close>, and \<open>the_num\<close> reads a number that is not NaN.
\<close>

fun join_lines :: "jstring list \<Rightarrow> jstring" where
  "join_lines [] = []"
| "join_lines [l] = l"
| "join_lines (l # ls) = l @ [10] @ join_lines ls"

definition dash_details :: "Order list \<Rightarrow> jstring" where
  "dash_details subs =
     join_lines (map (\<lambda>d. js ''- '' @ d) (filter (\<lambda>d. d \<noteq> []) (map details subs)))"

definition first_link :: "Order list \<Rightarrow> jstring" where
  "first_link subs =
     (case filter (\<lambda>l. l \<noteq> []) (map facebookLink subs) of [] \<Rightarrow> [] | l # _ \<Rightarrow> l)"

definition grouped_ok :: "GroupedOrder \<Rightarrow> bool" where
  "grouped_ok g =
     (subOrders g \<noteq> []
      \<and> amount g = sum_numbers (map amount (subOrders g))
      \<and> quantity g = sum_numbers (map quantity (subOrders g))
      \<and> date g = date (last (subOrders g))
      \<and> customerName g = customerName (last (subOrders g))
      \<and> details g = dash_details (subOrders g)
      \<and> facebookLink g = first_link (subOrders g)
      \<and> order_id g = order_id (hd (subOrders g))
      \<and> originalData g = originalData (hd (subOrders g)))"

definition inherited_key :: "jstring \<Rightarrow> bool" where
  "inherited_key k = (k = js ''constructor'' \<or> k = js ''__proto__'')"

definition loop_inv :: "js_env \<Rightarrow> Order list \<Rightarrow> grouping_state \<Rightarrow> bool" where
  "loop_inv env seen st =
     (distinct (map fst (groups st))
      \<and> (\<forall>(k, g) \<in> set (groups st).
            \<not> inherited_key k \<and> grouped_ok g
            \<and> subOrders g = filter (\<lambda>order. customer_key env order = k) seen)
      \<and> (\<forall>order \<in> set seen.
            inherited_key (customer_key env order) \<or> customer_key env order \<in> fst ` set (groups st)))"

fun the_num :: "number \<Rightarrow> rat" where
  "the_num (Num r) = r"
| "the_num NaN = 0"

definition sample_env :: js_env where
  "sample_env = \<lparr>legacy_parse = (\<lambda>s. None), localTZA = 25200000, now = 1721520000000,
                  lower_other = (\<lambda>s. s)\<rparr>"

definition sample_order :: "string \<Rightarrow> string \<Rightarrow> rat \<Rightarrow> rat \<Rightarrow> string \<Rightarrow> string \<Rightarrow> string \<Rightarrow> Order" where
  "sample_order i d a q c dt fb =
     \<lparr>order_id = js i, date = js d, amount = Num a, quantity = Num q,
      customerName = js c, details = js dt, facebookLink = js fb, originalData = []\<rparr>"

definition sample_orders :: "Order list" where
  "sample_orders =
     [sample_order ''row-0'' ''2024-07-21T10:00:00.000Z'' 100 1 ''An'' ''ao'' '''',
      sample_order ''row-1'' ''2024-07-20T10:00:00.000Z'' 50 2 '' an '' '''' ''fb.com/an'',
      sample_order ''row-2'' ''2024-07-19T08:30:00.000Z'' 500 1 ''Binh'' ''mu'' '''']"

definition sample_six :: "Order list" where
  "sample_six =
     map (\<lambda>(c, a). sample_order ''row'' ''2024-07-21T10:00:00.000Z'' a 1 c '''' '''')
       [(''A'', 10), (''B'', 60), (''C'', 30), (''D'', 40), (''E'', 20), (''F'', 50)]"

subsection \<open>The invariant of the daily-statistics loop\<close>

text \<open>
  After the orders \<open>seen\<close>, the map holds one entry per day key of \<open>seen\<close>, and the
  entry of a key carries the sums over the orders of that key, in the order of the input.
  \<open>sample_daily\<close> is an input with two orders on one day.
\<close>

definition stats_inv :: "Order list \<Rightarrow> (jstring \<times> DailyStat) list \<Rightarrow> bool" where
  "stats_inv seen statsMap =
     (distinct (map fst statsMap)
      \<and> fst ` set statsMap = date_key ` set seen
      \<and> (\<forall>(k, s) \<in> set statsMap.
            DailyStat.date s = k
            \<and> orderCount s = sum_numbers (map quantity (filter (\<lambda>order. date_key order = k) seen))
            \<and> revenue s = sum_numbers (map amount (filter (\<lambda>order. date_key order = k) seen))))"

definition sample_daily :: "Order list" where
  "sample_daily =
     sample_orders @ [sample_order ''row-3'' ''2024-07-21T23:00:00.000Z'' 25 4 ''Chi'' '''' '''']"

subsection \<open>Sample inputs of the date-range filter\<close>

text \<open>
  An environment five hours west of UTC, and an order dated before 1970.
\<close>

definition sample_env_west :: js_env where
  "sample_env_west = \<lparr>legacy_parse = (\<lambda>s. None), localTZA = - 18000000, now = 1721520000000,
                       lower_other = (\<lambda>s. s)\<rparr>"

definition order_1969 :: Order where
  "order_1969 = sample_order ''row-0'' ''1969-07-20T20:17:00.000Z'' 100 1 ''An'' '''' ''''"

section \<open>Date parser and record builder (services/dataService)\<close>

text \<open>
  \<^verbatim>\<open>
  const parseDate = (value: string): string => {
    if (!value) return new Date().toISOString();
    const parts = value.match(/(\d{1,2})[\/\-\.](\d{1,2})[\/\-\.](\d{4})/);
    if (parts) {
      const d = new Date(`${parts[3]}-${parts[2]}-${parts[1]}`);
      if (!isNaN(d.getTime())) return d.toISOString();
    }
    const d = new Date(value);
    if (!isNaN(d.getTime())) { return d.toISOString(); }
    return new Date().toISOString();
  };
  \<close>
  The regular expression is searched from the left; at a position its parts are tried in
  backtracking order (two digits before one). \<open>match_at\<close> lists the successful ways to
  match at the start of a string in that order, as the three captured groups.
\<close>

definition is_date_sep :: "nat \<Rightarrow> bool" where
  "is_date_sep c = (c = 47 \<or> c = 45 \<or> c = DOT)"

definition digits_1_2 :: "jstring \<Rightarrow> (jstring \<times> jstring) list" where
  "digits_1_2 s =
     (if 2 \<le> length s \<and> is_digit (s ! 0) \<and> is_digit (s ! 1) then [(take 2 s, drop 2 s)] else [])
     @ (if 1 \<le> length s \<and> is_digit (s ! 0) then [(take 1 s, drop 1 s)] else [])"

definition after_sep :: "jstring \<Rightarrow> jstring list" where
  "after_sep s = (if s \<noteq> [] \<and> is_date_sep (hd s) then [tl s] else [])"

definition digits_4 :: "jstring \<Rightarrow> jstring list" where
  "digits_4 s = (if 4 \<le> length s \<and> list_all is_digit (take 4 s) then [take 4 s] else [])"

definition match_at :: "jstring \<Rightarrow> (jstring \<times> jstring \<times> jstring) list" where
  "match_at s =
     concat (map (\<lambda>(p1, r1).
       concat (map (\<lambda>r2.
         concat (map (\<lambda>(p2, r3).
           concat (map (\<lambda>r4.
             map (\<lambda>p3. (p1, p2, p3)) (digits_4 r4))
           (after_sep r3)))
         (digits_1_2 r2)))
       (after_sep r1)))
     (digits_1_2 s))"

fun match_dmy :: "jstring \<Rightarrow> (jstring \<times> jstring \<times> jstring) option" where
  "match_dmy [] = None"
| "match_dmy (c # cs) =
     (case match_at (c # cs) of m # _ \<Rightarrow> Some m | [] \<Rightarrow> match_dmy cs)"

definition parseDate :: "js_env \<Rightarrow> jstring \<Rightarrow> error + jstring" where
  "parseDate env v =
     (if v = [] then toISOString (Date_now env)
      else let parts = match_dmy v;
               d1 = (case parts of
                       Some (p1, p2, p3) \<Rightarrow> Date_parse env (p3 @ [45] @ p2 @ [45] @ p1)
                     | None \<Rightarrow> None)
           in if parts \<noteq> None \<and> d1 \<noteq> None then toISOString d1
              else let d = Date_parse env v
                   in if d \<noteq> None then toISOString d else toISOString (Date_now env))"

text \<open>
  \<^verbatim>\<open>
  export const fetchSalesData = async (): Promise<Order[]> => {
      ...
      const csvText = await response.text();
      const lines = csvText.split('\n').filter(line => line.trim() !== '');
      if (lines.length < 2) return [];
      const headers = parseCSVLine(lines[0]).map(h => h.toLowerCase());
      const dataLines = lines.slice(1);
      return dataLines.map((line, index) => {
        const values = parseCSVLine(line);
        const row: any = {};
        headers.forEach((h, i) => { row[h] = values[i] || ''; });
        const findVal = (keywords: string[]) => {
          const key = headers.find(h => keywords.some(k => h.includes(k)));
          return key ? row[key] : '';
        };
        const dateVal = findVal(['th\<dots>i gian', 'ng\<dots>y', 'time', 'date']);
        const nameVal = findVal(['t\<dots>n kh\<dots>ch', 'kh\<dots>ch h\<dots>ng', 'name']);
        const quantityVal = findVal(['s\<dots> \<dots>n', 's\<dots> l\<dots>ng', 'quantity']);
        const amountVal = findVal(['t\<dots>ng ti\<dots>n', 'doanh thu', 'amount', 'th\<dots>nh ti\<dots>n']);
        const detailVal = findVal(['chi ti\<dots>t', 'n\<dots>i dung', 'comment', 'product']);
        const linkVal = findVal(['link facebook', 'facebook', 'fb']);
        return {
          id: `row-${index}`,
          date: parseDate(dateVal),
          amount: parseCurrency(amountVal),
          quantity: parseNumber(quantityVal),
          customerName: nameVal || `Kh\<dots>ch ${index + 1}`,
          details: detailVal || '',
          facebookLink: linkVal || '',
          originalData: row
        };
      });
  };
  \<close>
  (The Vietnamese letters of the source are written \<open>\<dots>\<close> in this quotation; the
  keyword constants below hold their code units.) The network request is outside the
  model: \<open>parse_sheet\<close> is the function from the response text to the orders.

  The row object is a list of its own properties. The assignment \<^verbatim>\<open>row[h] = v\<close> of
  a string to the key \<^verbatim>\<open>__proto__\<close> is ignored by the language and creates no
  property. A read \<^verbatim>\<open>row[key]\<close> finds the own property of every header that was
  assigned; the header \<^verbatim>\<open>__proto__\<close> contains no keyword and is never read.
  \<open>undefined\<close> is read as the empty string: every use of these values treats both alike.
\<close>

definition row_set :: "jstring \<Rightarrow> jstring \<Rightarrow> (jstring \<times> jstring) list \<Rightarrow> (jstring \<times> jstring) list" where
  "row_set h v row = (if h = js ''__proto__'' then row else assoc_set h v row)"

definition row_get :: "(jstring \<times> jstring) list \<Rightarrow> jstring \<Rightarrow> jstring" where
  "row_get row key = (case map_of row key of Some v \<Rightarrow> v | None \<Rightarrow> [])"

definition cell :: "jstring list \<Rightarrow> nat \<Rightarrow> jstring" where
  "cell values i = (if i < length values then values ! i else [])"

definition build_row :: "jstring list \<Rightarrow> jstring list \<Rightarrow> (jstring \<times> jstring) list" where
  "build_row headers values =
     foldl (\<lambda>row (h, i). row_set h (cell values i) row) [] (zip headers [0..<length headers])"

definition findVal :: "jstring list \<Rightarrow> (jstring \<times> jstring) list \<Rightarrow> jstring list \<Rightarrow> jstring" where
  "findVal headers row keywords =
     (case find (\<lambda>h. list_ex (\<lambda>k. str_includes h k) keywords) headers of
        Some key \<Rightarrow> (if key \<noteq> [] then row_get row key else [])
      | None \<Rightarrow> [])"

definition date_keywords :: "jstring list" where
  "date_keywords = [js ''th'' @ [7901] @ js ''i gian'', js ''ng'' @ [224] @ js ''y'',
                    js ''time'', js ''date'']"

definition name_keywords :: "jstring list" where
  "name_keywords = [js ''t'' @ [234] @ js ''n kh'' @ [225] @ js ''ch'',
                    js ''kh'' @ [225] @ js ''ch h'' @ [224] @ js ''ng'', js ''name'']"

definition quantity_keywords :: "jstring list" where
  "quantity_keywords = [js ''s'' @ [7889, 32, 273, 417] @ js ''n'',
                        js ''s'' @ [7889] @ js '' l'' @ [432, 7907] @ js ''ng'', js ''quantity'']"

definition amount_keywords :: "jstring list" where
  "amount_keywords = [js ''t'' @ [7893] @ js ''ng ti'' @ [7873] @ js ''n'', js ''doanh thu'',
                      js ''amount'', js ''th'' @ [224] @ js ''nh ti'' @ [7873] @ js ''n'']"

definition detail_keywords :: "jstring list" where
  "detail_keywords = [js ''chi ti'' @ [7871] @ js ''t'', js ''n'' @ [7897] @ js ''i dung'',
                      js ''comment'', js ''product'']"

definition link_keywords :: "jstring list" where
  "link_keywords = [js ''link facebook'', js ''facebook'', js ''fb'']"

definition placeholder_name :: "nat \<Rightarrow> jstring" where
  "placeholder_name index = js ''Kh'' @ [225] @ js ''ch '' @ show_nat (index + 1)"

definition build_order :: "js_env \<Rightarrow> jstring list \<Rightarrow> nat \<Rightarrow> jstring \<Rightarrow> error + Order" where
  "build_order env headers index line =
     (let values = parseCSVLine line;
          row = build_row headers values;
          dateVal = findVal headers row date_keywords;
          nameVal = findVal headers row name_keywords;
          quantityVal = findVal headers row quantity_keywords;
          amountVal = findVal headers row amount_keywords;
          detailVal = findVal headers row detail_keywords;
          linkVal = findVal headers row link_keywords
      in case parseDate env dateVal of
           Inl e \<Rightarrow> Inl e
         | Inr d \<Rightarrow>
             Inr \<lparr>order_id = js ''row-'' @ show_nat index,
                  date = d,
                  amount = parseCurrency amountVal,
                  quantity = parseNumber quantityVal,
                  customerName = (if nameVal \<noteq> [] then nameVal else placeholder_name index),
                  details = (if detailVal \<noteq> [] then detailVal else []),
                  facebookLink = (if linkVal \<noteq> [] then linkVal else []),
                  originalData = row\<rparr>)"

fun collect :: "(error + 'a) list \<Rightarrow> error + 'a list" where
  "collect [] = Inr []"
| "collect (r # rs) =
     (case r of
        Inl e \<Rightarrow> Inl e
      | Inr x \<Rightarrow> (case collect rs of Inl e \<Rightarrow> Inl e | Inr xs \<Rightarrow> Inr (x # xs)))"

definition parse_sheet :: "js_env \<Rightarrow> jstring \<Rightarrow> error + Order list" where
  "parse_sheet env csvText =
     (let lines = filter (\<lambda>line. trim line \<noteq> []) (split_unit 10 csvText)
      in if length lines < 2 then Inr []
         else let headers = map (toLowerCase env) (parseCSVLine (hd lines));
                  dataLines = tl lines
              in collect (map (\<lambda>(line, index). build_order env headers index line)
                              (zip dataLines [0..<length dataLines])))"

subsection \<open>The stages of the date parser, and a sample row\<close>

text \<open>
  Written from the specification: the instant that the date parser renders. For an empty
  value it is the current instant; otherwise the date of the first day/month/year match,
  rebuilt in the order year-month-day, when that is a valid date; otherwise the generic
  parse of the whole value when that is a valid date; otherwise the current instant.
\<close>

definition parseDate_time :: "js_env \<Rightarrow> jstring \<Rightarrow> int" where
  "parseDate_time env v =
     (if v = [] then now env
      else case (case match_dmy v of
                   Some (p1, p2, p3) \<Rightarrow> Date_parse env (p3 @ [45] @ p2 @ [45] @ p1)
                 | None \<Rightarrow> None) of
             Some t \<Rightarrow> t
           | None \<Rightarrow> (case Date_parse env v of Some t \<Rightarrow> t | None \<Rightarrow> now env))"





text \<open>
  A sheet of three customers whose second amount cell is \<^verbatim>\<open>N/A.\<close>, and the orders the
  record builder makes of it.
\<close>

definition nan_sheet :: jstring where
  "nan_sheet = js ''name,amount,date'' @ [10] @ js ''A,1,01/07/2024'' @ [10]
               @ js ''B,N/A.,02/07/2024'' @ [10] @ js ''C,2,03/07/2024''"

definition nan_order :: "string \<Rightarrow> string \<Rightarrow> number \<Rightarrow> string \<Rightarrow> string \<Rightarrow> string \<Rightarrow> Order" where
  "nan_order i d a c cellText raw =
     \<lparr>order_id = js i, date = js d, amount = a, quantity = Num 1, customerName = js c,
      details = [], facebookLink = [],
      originalData = [(js ''name'', js c), (js ''amount'', js cellText), (js ''date'', js raw)]\<rparr>"

definition nan_orders :: "Order list" where
  "nan_orders =
     [nan_order ''row-0'' ''2024-07-01T00:00:00.000Z'' (Num 1) ''A'' ''1'' ''01/07/2024'',
      nan_order ''row-1'' ''2024-07-02T00:00:00.000Z'' NaN ''B'' ''N/A.'' ''02/07/2024'',
      nan_order ''row-2'' ''2024-07-03T00:00:00.000Z'' (Num 2) ''C'' ''2'' ''03/07/2024'']"
section \<open>Properties\<close>

subsection \<open>The nearest double of a natural number\<close>

lemma bit_length_bounds:
  "0 < k \<Longrightarrow> 0 < bit_length k \<and> 2 ^ nat (bit_length k - 1) \<le> k \<and> k < 2 ^ nat (bit_length k)"
proof (induction k rule: bit_length.induct)
  case (1 k)
  have bl: "bit_length k = 1 + bit_length (k div 2)" using 1(2) by (subst bit_length.simps) simp
  show ?case
  proof (cases "k div 2 \<le> 0")
    case True
    with 1(2) have "k = 1" by presburger
    moreover have "bit_length 1 = 1" by (simp add: bit_length.simps)
    ultimately show ?thesis by simp
  next
    case False
    with 1 have ih: "0 < bit_length (k div 2)"
      "2 ^ nat (bit_length (k div 2) - 1) \<le> k div 2" "k div 2 < 2 ^ nat (bit_length (k div 2))"
      by simp_all
    from ih(1) have p: "nat (bit_length (k div 2)) = Suc (nat (bit_length (k div 2) - 1))" by simp
    have "(2::int) ^ nat (bit_length k - 1) = 2 * 2 ^ nat (bit_length (k div 2) - 1)"
      unfolding bl using p by simp
    also have "\<dots> \<le> 2 * (k div 2)" using ih(2) by simp
    also have "\<dots> \<le> k" by presburger
    finally have a: "2 ^ nat (bit_length k - 1) \<le> k" .
    have "k + 1 \<le> 2 * (k div 2 + 1)" by presburger
    also have "\<dots> \<le> 2 * 2 ^ nat (bit_length (k div 2))" using ih(3) by simp
    also have "\<dots> = 2 ^ nat (bit_length k)" unfolding bl using ih(1) by (simp add: nat_add_distrib)
    finally have "k < 2 ^ nat (bit_length k)" by simp
    with a ih(1) bl show ?thesis by simp
  qed
qed

lemma floor_log2_nat: "0 < n \<Longrightarrow> floor_log2 (of_nat n) = bit_length (int n) - 1"
  by (simp add: floor_log2_def)

lemma round_half_even_int: "round_half_even (of_int k) = k"
  by (simp add: round_half_even_def)

lemma round_half_even_floor: "\<lfloor>x\<rfloor> \<le> round_half_even x"
  by (simp add: round_half_even_def Let_def)

lemma round_half_even_ceiling: "round_half_even x \<le> \<lfloor>x\<rfloor> + 1"
  by (simp add: round_half_even_def Let_def)

lemma round_double_nat_cases:
  assumes "0 < n"
  shows "round_double (of_nat n) =
     (let e = bit_length (int n) - 1; ulp = pow2 (e - 52);
          m = round_half_even (of_nat n / ulp)
      in if 1024 \<le> e \<or> (e = 1023 \<and> 9007199254740992 \<le> m) then PosInf
         else Num (of_int m * ulp))"
proof -
  from assms have "0 < bit_length (int n)" using bit_length_bounds [of "int n"] by simp
  then have mx: "max (bit_length (int n) - 1) (- 1022) = bit_length (int n) - 1" by simp
  have z: "(of_nat n :: rat) \<noteq> 0" "\<bar>of_nat n :: rat\<bar> = of_nat n" "0 < (of_nat n :: rat)"
    using assms by simp_all
  show ?thesis
    unfolding round_double_def Let_def
    by (simp only: z floor_log2_nat [OF assms] mx if_False if_True)
qed

lemma round_double_exact:
  assumes "0 < n" and "n \<le> 2 ^ 53"
  shows "round_double (of_nat n) = Num (of_nat n)"
proof (cases "n = 2 ^ 53")
  case True
  have "round_double 9007199254740992 = Num 9007199254740992" by code_simp
  with True show ?thesis by simp
next
  case False
  with assms have lt: "int n < 2 ^ 53" by simp
  from assms(1) have pos: "0 < int n" by simp
  from bit_length_bounds [OF pos] have lo: "2 ^ nat (bit_length (int n) - 1) \<le> int n"
    and bp: "0 < bit_length (int n)" by simp_all
  from lo lt have "(2::int) ^ nat (bit_length (int n) - 1) < 2 ^ 53" by (rule le_less_trans)
  then have "nat (bit_length (int n) - 1) < 53" by (simp only: power_strict_increasing_iff rel_simps)
  with bp have b: "bit_length (int n) \<le> 53" by simp
  define j where "j = nat (53 - bit_length (int n))"
  from b have e: "bit_length (int n) - 1 - 52 = - int j" by (simp add: j_def)
  have ulp: "pow2 (- int j) = 1 / 2 ^ j" by (cases "j = 0") (simp_all add: pow2_def)
  have q: "(of_nat n :: rat) / (1 / 2 ^ j) = of_int (int n * 2 ^ j)" by simp
  have v: "of_int (round_half_even (of_nat n / (1 / 2 ^ j))) * (1 / 2 ^ j) = (of_nat n :: rat)"
    unfolding q round_half_even_int by simp
  from b have small: "\<not> 1024 \<le> bit_length (int n) - 1" "bit_length (int n) - 1 \<noteq> 1023" by simp_all
  show ?thesis
    unfolding round_double_nat_cases [OF assms(1)] Let_def
    using small by (simp only: e ulp v simp_thms if_False)
qed

lemma round_double_nat:
  assumes "0 < n"
  shows "round_double (of_nat n) = PosInf
     \<or> (\<exists>k::nat. 0 < k \<and> round_double (of_nat n) = Num (of_nat k))"
proof (cases "n \<le> 2 ^ 53")
  case True
  with assms round_double_exact [OF assms True] show ?thesis by blast
next
  case False
  then have big: "(2::int) ^ 53 < int n" by simp
  from assms have pos: "0 < int n" by simp
  from bit_length_bounds [OF pos] have hi: "int n < 2 ^ nat (bit_length (int n))"
    and lo: "2 ^ nat (bit_length (int n) - 1) \<le> int n" by simp_all
  from big hi have "(2::int) ^ 53 < 2 ^ nat (bit_length (int n))" by (rule less_trans)
  then have "53 < nat (bit_length (int n))" by (simp only: power_strict_increasing_iff rel_simps)
  then have b: "53 < bit_length (int n)" by simp
  define j where "j = nat (bit_length (int n) - 53)"
  from b have e: "bit_length (int n) - 1 - 52 = int j" by (simp add: j_def)
  have ulp: "pow2 (int j) = 2 ^ j" by (simp add: pow2_def)
  define m where "m = round_half_even (of_nat n / 2 ^ j)"
  have "(2::int) ^ j \<le> 2 ^ nat (bit_length (int n) - 1)" using b by (simp add: j_def)
  from this lo have "2 ^ j \<le> int n" by (rule order_trans)
  then have "(2::rat) ^ j \<le> of_nat n"
    by (metis of_int_le_iff of_int_numeral of_int_of_nat_eq of_int_power)
  then have "(1::rat) \<le> of_nat n / 2 ^ j" by (simp add: le_divide_eq)
  then have "1 \<le> \<lfloor>(of_nat n :: rat) / 2 ^ j\<rfloor>" by simp
  from this round_half_even_floor [of "of_nat n / 2 ^ j"] have m: "1 \<le> m"
    unfolding m_def by (rule order_trans)
  define k where "k = nat m * 2 ^ j"
  from m have k: "0 < k" "(of_int m :: rat) * 2 ^ j = of_nat k" by (simp_all add: k_def)
  have "round_double (of_nat n)
      = (if 1024 \<le> bit_length (int n) - 1 \<or> (bit_length (int n) - 1 = 1023 \<and> 9007199254740992 \<le> m)
         then PosInf else Num (of_nat k))"
    unfolding round_double_nat_cases [OF assms] Let_def e ulp
    using k(2) by (simp add: m_def)
  with k(1) show ?thesis by auto
qed

lemma round_double_overflow:
  assumes "2 ^ 1024 \<le> n"
  shows "round_double (of_nat n) = PosInf"
proof -
  from assms have big: "(2::int) ^ 1024 \<le> int n"
    by (metis of_nat_le_iff of_nat_numeral of_nat_power)
  then have pos: "0 < int n" by (rule less_le_trans [rotated]) simp
  then have n: "0 < n" by simp
  from bit_length_bounds [OF pos] have hi: "int n < 2 ^ nat (bit_length (int n))" by simp
  from big hi have "(2::int) ^ 1024 < 2 ^ nat (bit_length (int n))" by (rule le_less_trans)
  then have "1024 < nat (bit_length (int n))" by (simp only: power_strict_increasing_iff rel_simps)
  then have "1024 \<le> bit_length (int n) - 1" by simp
  then show ?thesis unfolding round_double_nat_cases [OF n] Let_def by simp
qed

lemma round_double_not_NaN: "round_double r \<noteq> NaN"
  by (simp add: round_double_def Let_def)

lemma round_double_nat_nonzero:
  assumes "0 < n"
  shows "round_double (of_nat n) \<noteq> Num 0" and "round_double (of_nat n) \<noteq> NaN"
  using round_double_nat [OF assms] by auto

lemma round_double_zero: "round_double 0 = Num 0"
  by (simp add: round_double_def)

subsection \<open>The quantity parser\<close>

lemma takeWhile_filter_same: "takeWhile P (filter P xs) = filter P xs"
  by (induction xs) auto

lemma parseInt10_digits:
  assumes "\<forall>c \<in> set ds. is_digit c"
  shows "parseInt10 ds = (if ds = [] then NaN else round_double (of_nat (digits_value ds)))"
proof (cases ds)
  case Nil
  then show ?thesis by (simp add: parseInt10_def trimStart_def)
next
  case (Cons d ds')
  with assms have d: "is_digit d" by simp
  then have nw: "\<not> is_white_space d" and ns: "d \<noteq> 43" "d \<noteq> 45"
    by (auto simp: is_digit_def is_white_space_def)
  have "takeWhile is_digit ds = ds"
    using assms by (simp add: takeWhile_eq_all_conv)
  with Cons nw ns show ?thesis
    by (simp add: parseInt10_def trimStart_def Let_def)
qed

lemma parseNumber_char:
  "parseNumber v =
     (if digits_value (filter is_digit v) = 0 then Num 1
      else round_double (of_nat (digits_value (filter is_digit v))))"
proof -
  let ?z = "filter is_digit v"
  have *: "parseInt10 ?z = (if ?z = [] then NaN else round_double (of_nat (digits_value ?z)))"
    by (rule parseInt10_digits) simp
  show ?thesis
  proof (cases "v = []")
    case True
    then show ?thesis by (simp add: parseNumber_def digits_value_def)
  next
    case False
    show ?thesis
    proof (cases "digits_value ?z = 0")
      case True
      then have "\<not> num_truthy (parseInt10 ?z)"
        by (simp add: * num_truthy_def round_double_zero)
      with False True show ?thesis by (simp add: parseNumber_def Let_def)
    next
      case pos: False
      then have ne: "?z \<noteq> []" by (auto simp: digits_value_def)
      from pos have "0 < digits_value ?z" by simp
      then have "num_truthy (round_double (of_nat (digits_value ?z)))"
        unfolding num_truthy_def by (intro conjI round_double_nat_nonzero)
      with False pos ne show ?thesis by (simp add: parseNumber_def Let_def *)
    qed
  qed
qed

lemma digits_value_nines: "digits_value (replicate n 57) + 1 = 10 ^ n"
proof -
  have "foldl (\<lambda>a c. 10 * a + (c - 48)) a (replicate n 57) + 1 = (a + 1) * 10 ^ n" for a :: nat
    by (induction n arbitrary: a) (simp_all add: algebra_simps)
  from this [of 0] show ?thesis by (simp add: digits_value_def)
qed

lemma parseNumber_large:
  "parseNumber (js ''9007199254740993'') = Num 9007199254740992"
  "parseNumber (replicate 400 57) = PosInf"
proof -
  show "parseNumber (js ''9007199254740993'') = Num 9007199254740992" by code_simp
  have d: "filter is_digit (replicate 400 57) = replicate 400 57"
    by (simp add: is_digit_def)
  have "(2::nat) ^ 1024 + 1 \<le> 10 ^ 400" by simp
  also have "\<dots> = digits_value (replicate 400 57) + 1" by (simp only: digits_value_nines)
  finally have big: "2 ^ 1024 \<le> digits_value (replicate 400 57)" by simp
  then have "digits_value (replicate 400 57) \<noteq> 0"
    by (metis not_numeral_le_zero power_eq_0_iff zero_neq_numeral le_zero_eq)
  with big show "parseNumber (replicate 400 57) = PosInf"
    unfolding parseNumber_char d by (simp only: round_double_overflow if_False)
qed

text \<open>
  C7. The quantity parser keeps the decimal digits of its input and reads them as an
  integer, as a number of the language: the double nearest to that integer, which is the
  integer itself up to \<open>2^53\<close> and positive infinity beyond the range of doubles. When
  no digit is left, and also when the digits read as zero, the result is 1. The result is
  therefore never 0 and never NaN: it is a positive whole number or positive infinity.
  The empty string and "abc" give 1; the digit 5 followed by a space and a Vietnamese
  word gives 5.
\<close>

theorem parseNumber_quantity:
  "parseNumber v =
     (if digits_value (filter is_digit v) = 0 then Num 1
      else round_double (of_nat (digits_value (filter is_digit v))))
   \<and> (filter is_digit v = [] \<longrightarrow> parseNumber v = Num 1)
   \<and> (0 < digits_value (filter is_digit v) \<and> digits_value (filter is_digit v) \<le> 2 ^ 53 \<longrightarrow>
        parseNumber v = Num (of_nat (digits_value (filter is_digit v))))
   \<and> parseNumber v \<noteq> Num 0 \<and> parseNumber v \<noteq> NaN
   \<and> (parseNumber v = PosInf \<or> (\<exists>n::nat. 0 < n \<and> parseNumber v = Num (of_nat n)))
   \<and> parseNumber (js '''') = Num 1
   \<and> parseNumber (js ''abc'') = Num 1
   \<and> parseNumber (js ''5 c'' @ [225] @ js ''i'') = Num 5"
proof -
  let ?n = "digits_value (filter is_digit v)"
  have a: "parseNumber v = (if ?n = 0 then Num 1 else round_double (of_nat ?n))"
    by (rule parseNumber_char)
  have b: "filter is_digit v = [] \<longrightarrow> parseNumber v = Num 1"
    by (simp add: a digits_value_def)
  have c: "0 < ?n \<and> ?n \<le> 2 ^ 53 \<longrightarrow> parseNumber v = Num (of_nat ?n)"
    using round_double_exact [of ?n] by (simp add: a)
  have d: "parseNumber v = PosInf \<or> (\<exists>n::nat. 0 < n \<and> parseNumber v = Num (of_nat n))"
  proof (cases "?n = 0")
    case True
    then have "0 < (1::nat) \<and> parseNumber v = Num (of_nat 1)" by (simp add: a)
    then show ?thesis by blast
  next
    case False
    then have "0 < ?n" by simp
    from round_double_nat [OF this] False show ?thesis by (simp add: a)
  qed
  from d have e: "parseNumber v \<noteq> Num 0" "parseNumber v \<noteq> NaN" by auto
  have f: "parseNumber (js '''') = Num 1" "parseNumber (js ''abc'') = Num 1"
    "parseNumber (js ''5 c'' @ [225] @ js ''i'') = Num 5"
    by code_simp+
  from a b c d e f show ?thesis by (simp only: simp_thms)
qed

theorem parseNumber_quantity_witness:
  "filter is_digit (js ''SL: 12 don'') = js ''12''
   \<and> 0 < digits_value (js ''12'') \<and> digits_value (js ''12'') \<le> 2 ^ 53
   \<and> parseNumber (js ''SL: 12 don'') = Num 12
   \<and> filter is_digit (js ''n/a'') = []
   \<and> parseNumber (js ''n/a'') = Num 1"
proof -
  have z: "filter is_digit (js ''SL: 12 don'') = js ''12''" "filter is_digit (js ''n/a'') = []"
    by (simp_all add: js_def is_digit_def)
  have n: "digits_value (js ''12'') = 12" by (simp add: js_def digits_value_def)
  from parseNumber_quantity [of "js ''SL: 12 don''"]
  have "0 < digits_value (filter is_digit (js ''SL: 12 don''))
      \<and> digits_value (filter is_digit (js ''SL: 12 don'')) \<le> 2 ^ 53 \<longrightarrow>
        parseNumber (js ''SL: 12 don'')
          = Num (of_nat (digits_value (filter is_digit (js ''SL: 12 don''))))"
    by blast
  with z(1) n have p: "parseNumber (js ''SL: 12 don'') = Num 12" by simp
  from parseNumber_quantity [of "js ''n/a''"]
  have "filter is_digit (js ''n/a'') = [] \<longrightarrow> parseNumber (js ''n/a'') = Num 1" by blast
  with z(2) have q: "parseNumber (js ''n/a'') = Num 1" by simp
  from z n p q show ?thesis by simp
qed
subsection \<open>The currency parser\<close>

text \<open>
  The examples of the specification. The value of the third is the double written
  \<^verbatim>\<open>1234.56\<close>, which is the fraction shown.
\<close>

lemma parseCurrency_examples:
  "parseCurrency (js ''1.234.567'') = Num 1234567"
  "parseCurrency (js ''1,234,567'') = Num 1234567"
  "parseCurrency (js ''1.234,56'') = round_double (123456 / 100)"
  "round_double (123456 / 100) = Num (2714826150374277 / 2199023255552)"
  "parseCurrency (js '''') = Num 0"
  by code_simp+

text \<open>
  C3. The currency parser does not turn every unparsable input into 0: when the cleaned
  string holds separators and no digit, \<^verbatim>\<open>parseFloat\<close> gives NaN and the parser
  returns it as it is. A lone dot, a lone comma and the cell "N/A." all give NaN.
\<close>

theorem parseCurrency_separators_only:
  "parseCurrency (js ''.'') = NaN
   \<and> parseCurrency (js '','') = NaN
   \<and> parseCurrency (js ''.,'') = NaN
   \<and> parseCurrency (js ''N/A.'') = NaN"
  by (simp add: parseCurrency_def parseFloat_def js_def is_digit_def digits_value_def)

theorem parseCurrency_separators_only_witness:
  "parseCurrency (js ''.'') \<noteq> Num 0"
  using parseCurrency_separators_only by simp

subsection \<open>The splitter\<close>

lemma raw_fields_nonempty: "raw_fields q cs \<noteq> []"
  by (induction cs arbitrary: q) (auto split: list.splits)

lemma split_on_nonempty: "split_on P xs \<noteq> []"
  by (induction xs) (auto split: list.splits)

lemma split_loop_raw:
  "split_loop cs result cur q = result @ (cur @ hd (raw_fields q cs)) # tl (raw_fields q cs)"
  by (induction cs arbitrary: result cur q)
     (auto simp: raw_fields_nonempty split: list.splits)

lemma quote_flags_positions:
  "quote_flags q line = map (\<lambda>i. q = even (quotes_before line i)) [0..<length line]"
proof (induction line arbitrary: q)
  case Nil
  then show ?case by simp
next
  case (Cons c cs)
  have "map (\<lambda>i. q = even (quotes_before (c # cs) i)) [0..<length (c # cs)]
      = (q = even (quotes_before (c # cs) 0))
        # map (\<lambda>i. q = even (quotes_before (c # cs) (Suc i))) [0..<length cs]"
    by (simp add: map_upt_Suc del: upt_Suc)
  also have "\<dots> = q # map (\<lambda>i. (if c = QUOTE then \<not> q else q) = even (quotes_before cs i)) [0..<length cs]"
    by (auto simp: quotes_before_def)
  finally show ?case using Cons.IH by simp
qed

lemma raw_fields_split_on:
  "raw_fields q cs =
     map (\<lambda>p. filter (\<lambda>c. c \<noteq> QUOTE) (map fst p))
       (split_on (\<lambda>(c, inside). c = COMMA \<and> \<not> inside) (zip cs (quote_flags q cs)))"
proof (induction cs arbitrary: q)
  case Nil
  then show ?case by simp
next
  case (Cons c cs)
  define q' where "q' = (if c = QUOTE then \<not> q else q)"
  obtain p ps where sp:
    "split_on (\<lambda>(c, inside). c = COMMA \<and> \<not> inside) (zip cs (quote_flags q' cs)) = p # ps"
    by (meson list.exhaust split_on_nonempty)
  have ih: "raw_fields q' cs =
      filter (\<lambda>c. c \<noteq> QUOTE) (map fst p) # map (\<lambda>p. filter (\<lambda>c. c \<noteq> QUOTE) (map fst p)) ps"
    using Cons.IH [of q'] sp by simp
  show ?case
  proof (cases "c = QUOTE")
    case True
    then show ?thesis using ih sp by (simp add: q'_def)
  next
    case False
    then have "q' = q" by (simp add: q'_def)
    with False ih sp show ?thesis by (simp add: Cons.IH)
  qed
qed

lemma split_loop_pieces:
  "split_loop line [] [] False = map (filter (\<lambda>c. c \<noteq> QUOTE)) (pieces line)"
proof -
  have flags: "quote_flags False line = map (inside_quotes line) [0..<length line]"
    by (simp add: quote_flags_positions inside_quotes_def)
  have "split_loop line [] [] False = raw_fields False line"
    by (simp add: split_loop_raw raw_fields_nonempty)
  then show ?thesis
    by (simp add: raw_fields_split_on flags pieces_def comp_def)
qed

lemma split_loop_no_quote: "f \<in> set (split_loop line [] [] False) \<Longrightarrow> QUOTE \<notin> set f"
  unfolding split_loop_pieces by auto

lemma set_trim: "set (trim s) \<subseteq> set s"
proof
  fix x assume "x \<in> set (trim s)"
  then have "x \<in> set (dropWhile is_white_space (rev (dropWhile is_white_space s)))"
    by (simp add: trim_def trimStart_def trimEnd_def)
  then have "x \<in> set (rev (dropWhile is_white_space s))" by (rule set_dropWhileD)
  then have "x \<in> set (dropWhile is_white_space s)" by simp
  then show "x \<in> set s" by (rule set_dropWhileD)
qed

lemma trim_no_quote: "QUOTE \<notin> set s \<Longrightarrow> QUOTE \<notin> set (trim s)"
  using set_trim [of s] by blast

lemma strip_quote_ends_id: "QUOTE \<notin> set s \<Longrightarrow> strip_quote_ends s = s"
proof -
  assume nq: "QUOTE \<notin> set s"
  then have a: "\<not> (s \<noteq> [] \<and> hd s = QUOTE)" using hd_in_set by metis
  from nq have b: "\<not> (s \<noteq> [] \<and> last s = QUOTE)" using last_in_set by metis
  from a b show ?thesis by (auto simp: strip_quote_ends_def Let_def)
qed

lemma trimStart_trimEnd: "trimStart (trimEnd (trimStart s)) = trimEnd (trimStart s)"
proof -
  let ?t = "trimStart s"
  have split: "trimEnd ?t @ rev (takeWhile is_white_space (rev ?t)) = ?t"
    unfolding trimEnd_def by (metis rev_append rev_rev_ident takeWhile_dropWhile_id)
  show ?thesis
  proof (cases "trimEnd ?t = []")
    case True
    then show ?thesis by (simp add: trimStart_def)
  next
    case False
    with split have "hd (trimEnd ?t) = hd ?t" by (metis hd_append2)
    moreover from False split have "?t \<noteq> []" by auto
    then have "\<not> is_white_space (hd ?t)" unfolding trimStart_def by (rule hd_dropWhile)
    ultimately have "\<not> is_white_space (hd (trimEnd ?t))" by simp
    with False show ?thesis by (cases "trimEnd ?t") (simp_all add: trimStart_def)
  qed
qed

lemma trim_idem: "trim (trim s) = trim s"
  by (simp add: trim_def trimStart_trimEnd) (simp add: trimEnd_def)

lemma parseCSVLine_strip_vacuous:
  "parseCSVLine line = map trim (split_loop line [] [] False)"
proof -
  have "trim (strip_quote_ends (trim f)) = trim f" if "f \<in> set (split_loop line [] [] False)" for f
  proof -
    from that have "QUOTE \<notin> set (trim f)" by (intro trim_no_quote split_loop_no_quote)
    then show ?thesis by (simp add: strip_quote_ends_id trim_idem)
  qed
  then show ?thesis by (simp add: parseCSVLine_def)
qed

lemma parseCSVLine_unquoted: "parseCSVLine line = splitter_unquoted line"
  by (simp add: parseCSVLine_strip_vacuous split_loop_pieces splitter_unquoted_def comp_def)

text \<open>
  C5 (amended). For every line the splitter computes these fields: a quote character
  toggles the inside-quoted-field state and is itself taken out of the field, wherever it
  stands; a comma inside a quoted field is literal text; each field is then trimmed. No
  field of the result holds a quote character, so the replacement that would strip
  enclosing quotes never finds one, and the result is that of trimming the fields of the
  loop once. The line a,"b,c",d gives the three fields a / b,c / d.
\<close>

theorem parseCSVLine_splitter:
  "parseCSVLine line = splitter_unquoted line
   \<and> parseCSVLine line = map trim (split_loop line [] [] False)
   \<and> (\<forall>f \<in> set (parseCSVLine line). QUOTE \<notin> set f)
   \<and> parseCSVLine (js ''a,\"b,c\",d'') = [js ''a'', js ''b,c'', js ''d'']"
proof (intro conjI ballI)
  show "parseCSVLine line = splitter_unquoted line" by (rule parseCSVLine_unquoted)
  show "parseCSVLine line = map trim (split_loop line [] [] False)"
    by (rule parseCSVLine_strip_vacuous)
  show "parseCSVLine (js ''a,\"b,c\",d'') = [js ''a'', js ''b,c'', js ''d'']"
    by code_simp
next
  fix f assume "f \<in> set (parseCSVLine line)"
  then obtain r where "r \<in> set (split_loop line [] [] False)" "f = trim r"
    unfolding parseCSVLine_strip_vacuous by auto
  then show "QUOTE \<notin> set f" by (simp add: trim_no_quote split_loop_no_quote)
qed

theorem parseCSVLine_splitter_witness:
  "splitter_unquoted (js '' x , \"1,5\" ,,\"'') = [js ''x'', js ''1,5'', js '''', js '''']
   \<and> js ''1,5'' \<in> set (parseCSVLine (js '' x , \"1,5\" ,,\"''))
   \<and> QUOTE \<notin> set (js ''1,5'')"
proof -
  have e: "parseCSVLine (js '' x , \"1,5\" ,,\"'') = [js ''x'', js ''1,5'', js '''', js '''']"
    by code_simp
  then have m: "js ''1,5'' \<in> set (parseCSVLine (js '' x , \"1,5\" ,,\"''))" by simp
  from parseCSVLine_splitter [of "js '' x , \"1,5\" ,,\"''"] e
  have s: "splitter_unquoted (js '' x , \"1,5\" ,,\"'') = [js ''x'', js ''1,5'', js '''', js '''']"
    by simp
  from parseCSVLine_splitter [of "js '' x , \"1,5\" ,,\"''"] m
  have q: "QUOTE \<notin> set (js ''1,5'')" by blast
  from s m q show ?thesis by (simp only: simp_thms)
qed

text \<open>
  As the claim is worded the quote characters stay in the field and one enclosing pair is
  stripped. On the line x"y"z that gives the field x"y"z, where the splitter gives xyz; on
  ""abc"" it gives "abc", where the splitter gives abc.
\<close>

theorem parseCSVLine_quotes_counterexample:
  "parseCSVLine (js ''x\"y\"z'') \<noteq> splitter_spec (js ''x\"y\"z'')
   \<and> parseCSVLine (js ''x\"y\"z'') = [js ''xyz'']
   \<and> splitter_spec (js ''x\"y\"z'') = [js ''x\"y\"z'']
   \<and> parseCSVLine (js ''\"\"abc\"\"'') = [js ''abc'']
   \<and> splitter_spec (js ''\"\"abc\"\"'') = [js ''\"abc\"'']
   \<and> splitter_spec (js ''a,\"b,c\",d'') = [js ''a'', js ''b,c'', js ''d'']"
  by code_simp
subsection \<open>Time values\<close>

lemma getTime_cases:
  "getTime env s = NaN \<or> (\<exists>t. valid_time t \<and> getTime env s = Num (of_int t))"
  by (auto simp: getTime_def Date_parse_def TimeClip_def split: option.splits if_splits)

lemma getTime_finite: "getTime env s \<noteq> NaN \<Longrightarrow> isFinite (getTime env s)"
  using getTime_cases [of env s] by auto

subsection \<open>Grouping by customer\<close>

lemma num_add_zero_left: "num_add (Num 0) n = n"
  by (cases n) simp_all

lemma sum_numbers_snoc: "sum_numbers (ns @ [n]) = num_add (sum_numbers ns) n"
  by (simp add: sum_numbers_def)

lemma sum_numbers_single: "sum_numbers [n] = n"
  by (simp add: sum_numbers_def num_add_zero_left)

lemma join_lines_snoc:
  "join_lines (ls @ [l]) = (if ls = [] then l else join_lines ls @ [10] @ l)"
  by (induction ls rule: join_lines.induct) auto

lemma join_lines_empty: "\<forall>l \<in> set ls. l \<noteq> [] \<Longrightarrow> join_lines ls = [] \<longleftrightarrow> ls = []"
  by (induction ls rule: join_lines.induct) auto

lemma dash_details_empty:
  "dash_details subs = [] \<longleftrightarrow> filter (\<lambda>d. d \<noteq> []) (map details subs) = []"
  unfolding dash_details_def
  by (subst join_lines_empty) (auto simp: js_def)

lemma dash_details_snoc:
  "dash_details (subs @ [order]) =
     (if details order \<noteq> []
      then (if dash_details subs \<noteq> []
            then dash_details subs @ [10] @ js ''- '' @ details order
            else js ''- '' @ details order)
      else dash_details subs)"
proof (cases "details order = []")
  case True
  then show ?thesis by (simp add: dash_details_def)
next
  case False
  show ?thesis
  proof (cases "dash_details subs = []")
    case True
    then have "filter (\<lambda>d. d \<noteq> []) (map details subs) = []"
      by (simp add: dash_details_empty)
    with False True show ?thesis by (simp add: dash_details_def)
  next
    case nonempty: False
    then have "filter (\<lambda>d. d \<noteq> []) (map details subs) \<noteq> []"
      by (simp add: dash_details_empty)
    with False nonempty show ?thesis
      by (simp add: dash_details_def join_lines_snoc)
  qed
qed

lemma first_link_snoc:
  "first_link (subs @ [order]) =
     (if first_link subs = [] \<and> facebookLink order \<noteq> [] then facebookLink order
      else first_link subs)"
proof (cases "filter (\<lambda>l. l \<noteq> []) (map facebookLink subs)")
  case Nil
  then show ?thesis by (simp add: first_link_def)
next
  case (Cons l ls)
  then have "l \<in> set (filter (\<lambda>l. l \<noteq> []) (map facebookLink subs))" by simp
  then have "l \<noteq> []" by simp
  with Cons show ?thesis by (simp add: first_link_def)
qed

lemma subOrders_seed [simp]: "subOrders (seed_group order) = [order]"
  by (simp add: seed_group_def Order.extend_def GroupedOrder.fields_def)

lemma seed_group_ok: "grouped_ok (seed_group order)"
  by (simp add: grouped_ok_def sum_numbers_single dash_details_def first_link_def)
     (simp add: seed_group_def Order.extend_def GroupedOrder.fields_def)

lemma subOrders_merge [simp]: "subOrders (merge_order g order) = subOrders g @ [order]"
  by (simp add: merge_order_def)

lemma merge_order_ok: "grouped_ok g \<Longrightarrow> grouped_ok (merge_order g order)"
  unfolding grouped_ok_def
  by (simp add: sum_numbers_snoc dash_details_snoc first_link_snoc)
     (simp add: merge_order_def)

lemma assoc_set_keys:
  "k \<in> fst ` set kvs \<Longrightarrow> map fst (assoc_set k v kvs) = map fst kvs"
  by (induction kvs) force+

lemma assoc_set_elems:
  "distinct (map fst kvs) \<Longrightarrow> map_of kvs k = Some old \<Longrightarrow>
     set (assoc_set k v kvs) = insert (k, v) (set kvs - {(k, old)})"
proof (induction kvs)
  case Nil
  then show ?case by simp
next
  case (Cons kv kvs)
  obtain k' v' where kv: "kv = (k', v')" by (cases kv)
  show ?case
  proof (cases "k' = k")
    case True
    with Cons.prems kv have "v' = old" "k \<notin> fst ` set kvs" by auto
    then have "(k, old) \<notin> set kvs" by force
    with True kv \<open>v' = old\<close> show ?thesis by auto
  next
    case False
    with Cons kv show ?thesis by auto
  qed
qed

lemma loop_inv_merge:
  assumes inv: "loop_inv env seen st"
    and own: "map_of (groups st) (customer_key env order) = Some g"
  shows "loop_inv env (seen @ [order])
           (st\<lparr>groups := assoc_set (customer_key env order) (merge_order g order) (groups st)\<rparr>)"
proof -
  let ?k = "customer_key env order"
  from inv have dist: "distinct (map fst (groups st))" by (simp add: loop_inv_def)
  from own have mem: "(?k, g) \<in> set (groups st)" by (rule map_of_SomeD)
  then have key_in: "?k \<in> fst ` set (groups st)" by force
  have elems: "set (assoc_set ?k (merge_order g order) (groups st))
      = insert (?k, merge_order g order) (set (groups st) - {(?k, g)})"
    using dist own by (rule assoc_set_elems)
  have g_ok: "\<not> inherited_key ?k" "grouped_ok g"
    "subOrders g = filter (\<lambda>order. customer_key env order = ?k) seen"
    using inv mem by (auto simp: loop_inv_def)
  have others: "k' \<noteq> ?k" if "(k', g') \<in> set (groups st)" "(k', g') \<noteq> (?k, g)" for k' g'
    using that dist mem by (metis eq_key_imp_eq_value)
  have "\<forall>(k, g') \<in> set (assoc_set ?k (merge_order g order) (groups st)).
          \<not> inherited_key k \<and> grouped_ok g'
          \<and> subOrders g' = filter (\<lambda>order. customer_key env order = k) (seen @ [order])"
  proof (clarify)
    fix k' g'
    assume "(k', g') \<in> set (assoc_set ?k (merge_order g order) (groups st))"
    then consider "k' = ?k" "g' = merge_order g order"
      | "(k', g') \<in> set (groups st)" "(k', g') \<noteq> (?k, g)"
      using elems by auto
    then show "\<not> inherited_key k' \<and> grouped_ok g'
          \<and> subOrders g' = filter (\<lambda>order. customer_key env order = k') (seen @ [order])"
    proof cases
      case 1
      with g_ok show ?thesis by (simp add: merge_order_ok)
    next
      case 2
      then have "k' \<noteq> ?k" by (rule others)
      with 2 inv show ?thesis by (auto simp: loop_inv_def)
    qed
  qed
  moreover have "\<forall>o' \<in> set (seen @ [order]).
      inherited_key (customer_key env o') \<or> customer_key env o' \<in> fst ` set (groups st)"
    using inv key_in by (auto simp: loop_inv_def)
  ultimately show ?thesis
    using dist key_in by (simp add: loop_inv_def assoc_set_keys flip: set_map)
qed

lemma loop_inv_skip:
  assumes inv: "loop_inv env seen st" and k: "inherited_key (customer_key env order)"
    and same: "groups st' = groups st"
  shows "loop_inv env (seen @ [order]) st'"
proof -
  have "customer_key env order \<noteq> k'" if "(k', g') \<in> set (groups st)" for k' g'
    using inv that k by (auto simp: loop_inv_def)
  then show ?thesis
    using inv k same by (fastforce simp: loop_inv_def)
qed

lemma loop_inv_seed:
  assumes inv: "loop_inv env seen st"
    and absent: "map_of (groups st) (customer_key env order) = None"
    and k: "\<not> inherited_key (customer_key env order)"
  shows "loop_inv env (seen @ [order])
           (st\<lparr>groups := groups st @ [(customer_key env order, seed_group order)]\<rparr>)"
proof -
  let ?k = "customer_key env order"
  from absent have fresh: "?k \<notin> fst ` set (groups st)"
    by (simp add: map_of_eq_None_iff)
  have none_seen: "filter (\<lambda>o'. customer_key env o' = ?k) seen = []"
  proof -
    have "customer_key env o' \<noteq> ?k" if "o' \<in> set seen" for o'
    proof -
      from inv that have "inherited_key (customer_key env o') \<or> customer_key env o' \<in> fst ` set (groups st)"
        unfolding loop_inv_def by blast
      with fresh k show ?thesis by metis
    qed
    then show ?thesis by (simp add: filter_empty_conv)
  qed
  have "customer_key env order \<noteq> k'" if "(k', g') \<in> set (groups st)" for k' g'
    using fresh that by force
  then show ?thesis
    using inv fresh k none_seen
    by (fastforce simp: loop_inv_def seed_group_ok)
qed

lemma group_step_inv:
  assumes "loop_inv env seen st" and "group_step env st order = Inr st'"
  shows "loop_inv env (seen @ [order]) st'"
proof (cases "map_of (groups st) (customer_key env order)")
  case (Some g)
  with assms show ?thesis
    using loop_inv_merge [OF assms(1) Some] by (auto simp: group_step_def Let_def)
next
  case None
  show ?thesis
  proof (cases "inherited_key (customer_key env order)")
    case True
    with None assms(2) have "groups st' = groups st"
      by (auto simp: group_step_def inherited_key_def pollute_def Let_def js_def split: if_splits)
    with assms(1) True show ?thesis by (rule loop_inv_skip)
  next
    case False
    with None assms(2)
    have "st' = st\<lparr>groups := groups st @ [(customer_key env order, seed_group order)]\<rparr>"
      by (auto simp: group_step_def inherited_key_def Let_def split: if_splits)
    then show ?thesis using loop_inv_seed [OF assms(1) None False] by simp
  qed
qed

lemma group_loop_inv:
  "loop_inv env seen st \<Longrightarrow> group_loop env st orders = Inr st' \<Longrightarrow> loop_inv env (seen @ orders) st'"
proof (induction orders arbitrary: seen st)
  case Nil
  then show ?case by simp
next
  case (Cons order rest)
  from Cons.prems(2) obtain st1 where s1: "group_step env st order = Inr st1"
    and rest: "group_loop env st1 rest = Inr st'"
    by (auto split: sum.splits)
  from Cons.prems(1) s1 have "loop_inv env (seen @ [order]) st1" by (rule group_step_inv)
  from Cons.IH [OF this rest] show ?case by simp
qed

lemma loop_inv_init: "loop_inv env [] \<lparr>groups = [], proto_date = None, proto_details = None\<rparr>"
  by (simp add: loop_inv_def)

lemma set_insert_sorted: "set (insert_sorted cmp x ys) = insert x (set ys)"
  by (induction ys) auto

lemma mset_insert_sorted: "mset (insert_sorted cmp x ys) = add_mset x (mset ys)"
  by (induction ys) auto

lemma mset_js_sort: "mset (js_sort cmp xs) = mset xs"
  by (induction xs) (auto simp: js_sort_def mset_insert_sorted)

lemma set_js_sort: "set (js_sort cmp xs) = set xs"
  using mset_js_sort [of cmp xs] by (metis set_mset_mset)

lemma length_js_sort: "length (js_sort cmp xs) = length xs"
  using mset_js_sort [of cmp xs] by (metis size_mset)

lemma isFinite_Num: "isFinite n \<Longrightarrow> \<exists>r. n = Num r"
  by (cases n) simp_all

lemma insert_sorted_ascending:
  assumes "isFinite (f x)" and "\<forall>y \<in> set ys. isFinite (f y)"
  shows "insert_sorted (\<lambda>a b. num_sub (f a) (f b)) x ys = insort_key (\<lambda>a. the_num (f a)) x ys"
  using assms(2)
proof (induction ys)
  case Nil
  then show ?case by simp
next
  case (Cons y ys)
  from assms(1) obtain a where a: "f x = Num a" using isFinite_Num by blast
  from Cons.prems obtain b where b: "f y = Num b" using isFinite_Num by auto
  from Cons show ?case by (auto simp: a b)
qed

lemma js_sort_ascending:
  "\<forall>x \<in> set xs. isFinite (f x) \<Longrightarrow>
     js_sort (\<lambda>a b. num_sub (f a) (f b)) xs = sort_key (\<lambda>a. the_num (f a)) xs"
proof (induction xs)
  case Nil
  then show ?case by (simp add: js_sort_def)
next
  case (Cons x xs)
  then have ih: "js_sort (\<lambda>a b. num_sub (f a) (f b)) xs = sort_key (\<lambda>a. the_num (f a)) xs"
    by simp
  have "\<forall>y \<in> set (sort_key (\<lambda>a. the_num (f a)) xs). isFinite (f y)"
    using Cons.prems by simp
  with Cons.prems have "insert_sorted (\<lambda>a b. num_sub (f a) (f b)) x (sort_key (\<lambda>a. the_num (f a)) xs)
      = insort_key (\<lambda>a. the_num (f a)) x (sort_key (\<lambda>a. the_num (f a)) xs)"
    by (intro insert_sorted_ascending) simp_all
  with ih show ?case by (simp add: js_sort_def sort_key_def)
qed

lemma insert_sorted_descending:
  assumes "isFinite (f x)" and "\<forall>y \<in> set ys. isFinite (f y)"
  shows "insert_sorted (\<lambda>a b. num_sub (f b) (f a)) x ys = insort_key (\<lambda>a. - the_num (f a)) x ys"
  using assms(2)
proof (induction ys)
  case Nil
  then show ?case by simp
next
  case (Cons y ys)
  from assms(1) obtain a where a: "f x = Num a" using isFinite_Num by blast
  from Cons.prems obtain b where b: "f y = Num b" using isFinite_Num by auto
  from Cons show ?case by (auto simp: a b)
qed

lemma js_sort_descending:
  "\<forall>x \<in> set xs. isFinite (f x) \<Longrightarrow>
     js_sort (\<lambda>a b. num_sub (f b) (f a)) xs = sort_key (\<lambda>a. - the_num (f a)) xs"
proof (induction xs)
  case Nil
  then show ?case by (simp add: js_sort_def)
next
  case (Cons x xs)
  then have ih: "js_sort (\<lambda>a b. num_sub (f b) (f a)) xs = sort_key (\<lambda>a. - the_num (f a)) xs"
    by simp
  have "\<forall>y \<in> set (sort_key (\<lambda>a. - the_num (f a)) xs). isFinite (f y)"
    using Cons.prems by simp
  with Cons.prems have "insert_sorted (\<lambda>a b. num_sub (f b) (f a)) x (sort_key (\<lambda>a. - the_num (f a)) xs)
      = insort_key (\<lambda>a. - the_num (f a)) x (sort_key (\<lambda>a. - the_num (f a)) xs)"
    by (intro insert_sorted_descending) simp_all
  with ih show ?case by (simp add: js_sort_def sort_key_def)
qed

lemma mset_object_values: "mset (object_values props) = mset (map snd props)"
proof -
  let ?P = "\<lambda>(k, v). is_array_index k"
  have "mset (map snd (filter ?P props)) + mset (map snd (filter (\<lambda>(k, v). \<not> is_array_index k) props))
      = mset (map snd props)"
    by (induction props) auto
  then show ?thesis by (simp add: object_values_def)
qed

lemma set_object_values: "set (object_values props) = snd ` set props"
  using mset_object_values [of props] by (metis set_mset_mset set_map)

lemma sorted_last_max:
  "sorted (map f xs) \<Longrightarrow> x \<in> set xs \<Longrightarrow> f x \<le> f (last xs)"
proof (induction xs)
  case Nil
  then show ?case by simp
next
  case (Cons y ys)
  then show ?case by (cases "ys = []") auto
qed

lemma groupedOrders_groups:
  assumes "groupedOrders env orders = Inr gs"
  obtains st where "group_loop env \<lparr>groups = [], proto_date = None, proto_details = None\<rparr>
        (sortedRaw env orders) = Inr st"
    and "loop_inv env (sortedRaw env orders) st"
    and "gs = js_sort (\<lambda>a b. num_sub (amount b) (amount a)) (object_values (groups st))"
proof -
  from assms obtain st where
    st: "group_loop env \<lparr>groups = [], proto_date = None, proto_details = None\<rparr>
        (sortedRaw env orders) = Inr st"
    and gs: "gs = js_sort (\<lambda>a b. num_sub (amount b) (amount a)) (object_values (groups st))"
    by (auto simp: groupedOrders_def split: sum.splits)
  from group_loop_inv [OF loop_inv_init st] have "loop_inv env (sortedRaw env orders) st" by simp
  with st gs that show thesis by blast
qed

lemma groupedOrders_member:
  assumes "groupedOrders env orders = Inr gs" and "g \<in> set gs"
  shows "grouped_ok g
    \<and> (\<exists>k. \<not> inherited_key k
          \<and> subOrders g = filter (\<lambda>order. customer_key env order = k) (sortedRaw env orders))"
proof -
  from assms(1) obtain st where inv: "loop_inv env (sortedRaw env orders) st"
    and gs: "gs = js_sort (\<lambda>a b. num_sub (amount b) (amount a)) (object_values (groups st))"
    by (rule groupedOrders_groups)
  from assms(2) gs have "g \<in> snd ` set (groups st)"
    by (simp add: set_js_sort set_object_values)
  then obtain k where "(k, g) \<in> set (groups st)" by force
  with inv show ?thesis unfolding loop_inv_def by blast
qed

lemma sortedRaw_sorted:
  assumes "\<forall>order \<in> set orders. getTime env (date order) \<noteq> NaN"
  shows "sorted (map (\<lambda>order. the_num (getTime env (date order))) (sortedRaw env orders))"
proof -
  from assms have "\<forall>order \<in> set orders. isFinite (getTime env (date order))"
    by (simp add: getTime_finite)
  then have "sortedRaw env orders = sort_key (\<lambda>a. the_num (getTime env (date a))) orders"
    unfolding sortedRaw_def
    by (rule js_sort_ascending [where f = "\<lambda>a. getTime env (date a)"])
  then show ?thesis by (simp add: sorted_sort_key)
qed

lemma num_le_the_num: "isFinite a \<Longrightarrow> isFinite b \<Longrightarrow> num_le a b = (the_num a \<le> the_num b)"
  by (cases a; cases b) simp_all

lemma groupedOrders_latest:
  assumes ret: "groupedOrders env orders = Inr gs" and g: "g \<in> set gs"
    and valid: "\<forall>order \<in> set orders. getTime env (date order) \<noteq> NaN"
    and s: "s \<in> set (subOrders g)"
  shows "num_le (getTime env (date s)) (getTime env (date g))"
proof -
  let ?t = "\<lambda>order. the_num (getTime env (date order))"
  from groupedOrders_member [OF ret g] obtain k where ok: "grouped_ok g"
    and subs: "subOrders g = filter (\<lambda>order. customer_key env order = k) (sortedRaw env orders)"
    by blast
  have "sorted (map ?t (subOrders g))"
    unfolding subs using sortedRaw_sorted [OF valid] by (rule sorted_filter)
  from sorted_last_max [OF this s] have le: "?t s \<le> ?t (last (subOrders g))" .
  have in_orders: "set (subOrders g) \<subseteq> set orders"
    unfolding subs by (auto simp: sortedRaw_def set_js_sort)
  from ok have ne: "subOrders g \<noteq> []" and d: "date g = date (last (subOrders g))"
    by (simp_all add: grouped_ok_def)
  from ne have "last (subOrders g) \<in> set (subOrders g)" by simp
  with in_orders valid s have "isFinite (getTime env (date s))"
    "isFinite (getTime env (date (last (subOrders g))))" by (auto simp: getTime_finite)
  with le d show ?thesis by (simp add: num_le_the_num)
qed

lemma group_step_returns:
  assumes "proto_date st = None" and "proto_details st = None"
    and "customer_key env order \<noteq> js ''__proto__''"
  shows "\<exists>st1. group_step env st order = Inr st1 \<and> proto_date st1 = None \<and> proto_details st1 = None"
proof (cases "map_of (groups st) (customer_key env order)")
  case None
  with assms show ?thesis by (simp add: group_step_def Let_def string_truthy_def)
next
  case (Some g)
  with assms show ?thesis by (simp add: group_step_def Let_def)
qed

lemma group_loop_returns:
  assumes "proto_date st = None" and "proto_details st = None"
    and "\<forall>order \<in> set orders. customer_key env order \<noteq> js ''__proto__''"
  shows "\<exists>st'. group_loop env st orders = Inr st'"
  using assms
proof (induction orders arbitrary: st)
  case Nil
  then show ?case by simp
next
  case (Cons order rest)
  from Cons.prems obtain st1 where s1: "group_step env st order = Inr st1"
    and p: "proto_date st1 = None" "proto_details st1 = None"
    using group_step_returns [where st = st and order = order] by auto
  from Cons.prems have "\<forall>order \<in> set rest. customer_key env order \<noteq> js ''__proto__''" by simp
  from Cons.IH [OF p this] s1 show ?case by simp
qed

lemma groupedOrders_returns:
  assumes "\<forall>order \<in> set orders. customer_key env order \<noteq> js ''__proto__''"
  shows "\<exists>gs. groupedOrders env orders = Inr gs"
proof -
  have "\<forall>order \<in> set (sortedRaw env orders). customer_key env order \<noteq> js ''__proto__''"
    using assms by (simp add: sortedRaw_def set_js_sort)
  then have "\<exists>st'. group_loop env \<lparr>groups = [], proto_date = None, proto_details = None\<rparr>
      (sortedRaw env orders) = Inr st'"
    by (intro group_loop_returns) simp_all
  then show ?thesis by (auto simp: groupedOrders_def)
qed

lemma num_add_commute: "num_add a b = num_add b a"
  by (cases a; cases b) simp_all

lemma toLowerCase_known: "list_all lower_known s \<Longrightarrow> toLowerCase env s = map lower_unit s"
  by (simp add: toLowerCase_def)

lemma key_of_An: "customerName order = js ''An'' \<Longrightarrow> customer_key env order = js ''an''"
  by (simp add: customer_key_def toLowerCase_def lower_known_def trim_def trimStart_def
      trimEnd_def is_white_space_def lower_unit_def js_def)

lemma key_of_an_spaced: "customerName order = js '' an '' \<Longrightarrow> customer_key env order = js ''an''"
  by (simp add: customer_key_def toLowerCase_def lower_known_def trim_def trimStart_def
      trimEnd_def is_white_space_def lower_unit_def js_def)

text \<open>
  The key keeps the white space inside a name: only the ends are trimmed.
\<close>

lemma key_of_An_Binh:
  "customerName order = js '' An  Binh '' \<Longrightarrow> customer_key env order = js ''an  binh''"
  by (simp add: customer_key_def toLowerCase_def lower_known_def trim_def trimStart_def
      trimEnd_def is_white_space_def lower_unit_def js_def)

lemma group_pair:
  assumes "customer_key env a = k" and "customer_key env b = k" and "\<not> inherited_key k"
  shows "group_loop env \<lparr>groups = [], proto_date = None, proto_details = None\<rparr> [a, b]
     = Inr \<lparr>groups = [(k, merge_order (seed_group a) b)],
            proto_date = None, proto_details = None\<rparr>"
  using assms by (simp add: group_step_def Let_def inherited_key_def string_truthy_def)

lemma object_values_single: "object_values [(k, g)] = [g]"
  by (simp add: object_values_def)

text \<open>
  Two orders whose names have the same key, that is, which differ only by white space at
  the ends and by letter case, are merged into one record with both as sub-orders and the
  sum of both amounts, unless the key is one of the two inherited names.
\<close>

lemma groupedOrders_pair:
  assumes same: "customer_key env o1 = customer_key env o2"
    and plain: "\<not> inherited_key (customer_key env o1)"
  shows "\<exists>g. groupedOrders env [o1, o2] = Inr [g] \<and> length (subOrders g) = 2
           \<and> amount g = num_add (amount o1) (amount o2)"
proof -
  define k where "k = customer_key env o1"
  have k: "customer_key env o1 = k" "customer_key env o2 = k" "\<not> inherited_key k"
    using same plain by (simp_all add: k_def)
  have "sortedRaw env [o1, o2] = [o1, o2] \<or> sortedRaw env [o1, o2] = [o2, o1]"
    by (simp add: sortedRaw_def js_sort_def)
  then show ?thesis
  proof
    assume s: "sortedRaw env [o1, o2] = [o1, o2]"
    have "group_loop env \<lparr>groups = [], proto_date = None, proto_details = None\<rparr>
        (sortedRaw env [o1, o2])
      = Inr \<lparr>groups = [(k, merge_order (seed_group o1) o2)],
             proto_date = None, proto_details = None\<rparr>"
      by (simp only: s group_pair [OF k])
    then have "groupedOrders env [o1, o2] = Inr [merge_order (seed_group o1) o2]"
      by (simp add: groupedOrders_def object_values_single js_sort_def)
    moreover have "amount (merge_order (seed_group o1) o2) = num_add (amount o1) (amount o2)"
      by (simp add: merge_order_def seed_group_def Order.extend_def)
    ultimately show ?thesis by simp
  next
    assume s: "sortedRaw env [o1, o2] = [o2, o1]"
    have "group_loop env \<lparr>groups = [], proto_date = None, proto_details = None\<rparr>
        (sortedRaw env [o1, o2])
      = Inr \<lparr>groups = [(k, merge_order (seed_group o2) o1)],
             proto_date = None, proto_details = None\<rparr>"
      by (simp only: s group_pair [OF k(2) k(1) k(3)])
    then have "groupedOrders env [o1, o2] = Inr [merge_order (seed_group o2) o1]"
      by (simp add: groupedOrders_def object_values_single js_sort_def)
    moreover have "amount (merge_order (seed_group o2) o1) = num_add (amount o1) (amount o2)"
      by (simp add: merge_order_def seed_group_def Order.extend_def num_add_commute)
    ultimately show ?thesis by simp
  qed
qed

lemma groupedOrders_An_an:
  assumes "customerName o1 = js ''An''" and "customerName o2 = js '' an ''"
  shows "\<exists>g. groupedOrders env [o1, o2] = Inr [g] \<and> length (subOrders g) = 2
           \<and> amount g = num_add (amount o1) (amount o2)"
proof -
  have k: "customer_key env o1 = js ''an''" "customer_key env o2 = js ''an''"
    using assms by (simp_all add: key_of_An key_of_an_spaced)
  have "\<not> inherited_key (js ''an'')" by (simp add: inherited_key_def js_def)
  with k show ?thesis by (intro groupedOrders_pair) simp_all
qed

lemma mset_filter_disjoint:
  "(\<And>x. P x \<Longrightarrow> \<not> Q x) \<Longrightarrow>
     mset (filter P xs) + mset (filter Q xs) = mset (filter (\<lambda>x. P x \<or> Q x) xs)"
  by (induction xs) auto

lemma mset_concat_filters:
  "distinct ks \<Longrightarrow>
     mset (concat (map (\<lambda>k. filter (\<lambda>x. f x = k) xs) ks)) = mset (filter (\<lambda>x. f x \<in> set ks) xs)"
proof (induction ks)
  case Nil
  then show ?case by simp
next
  case (Cons k ks)
  then have "mset (concat (map (\<lambda>k. filter (\<lambda>x. f x = k) xs) (k # ks)))
      = mset (filter (\<lambda>x. f x = k) xs) + mset (filter (\<lambda>x. f x \<in> set ks) xs)"
    by simp
  also have "\<dots> = mset (filter (\<lambda>x. f x = k \<or> f x \<in> set ks) xs)"
    using Cons.prems by (intro mset_filter_disjoint) auto
  finally show ?case by (simp add: disj_commute)
qed

lemma mset_concat_cong:
  "mset xs = mset ys \<Longrightarrow> mset (concat (map f xs)) = mset (concat (map f ys))"
proof -
  assume eq: "mset xs = mset ys"
  have "mset (concat (map f zs)) = sum_mset (image_mset (\<lambda>z. mset (f z)) (mset zs))" for zs
    by (induction zs) auto
  with eq show ?thesis by simp
qed

lemma groupedOrders_subOrders_mset:
  assumes "groupedOrders env orders = Inr gs"
  shows "mset (concat (map subOrders gs))
     = mset (filter (\<lambda>order. \<not> inherited_key (customer_key env order)) orders)"
proof -
  let ?S = "sortedRaw env orders"
  from assms obtain st where inv: "loop_inv env ?S st"
    and gs: "gs = js_sort (\<lambda>a b. num_sub (amount b) (amount a)) (object_values (groups st))"
    by (rule groupedOrders_groups)
  from inv have dist: "distinct (map fst (groups st))" by (simp add: loop_inv_def)
  have "map (\<lambda>kg. subOrders (snd kg)) (groups st)
      = map (\<lambda>kg. filter (\<lambda>order. customer_key env order = fst kg) ?S) (groups st)"
    by (rule map_cong) (use inv in \<open>auto simp: loop_inv_def\<close>)
  then have each: "map (\<lambda>kg. subOrders (snd kg)) (groups st)
      = map (\<lambda>k. filter (\<lambda>order. customer_key env order = k) ?S) (map fst (groups st))"
    by (simp add: comp_def)
  have keys: "customer_key env order \<in> set (map fst (groups st)) \<longleftrightarrow> \<not> inherited_key (customer_key env order)"
    if "order \<in> set ?S" for order
    using inv that unfolding loop_inv_def by force
  have "mset gs = mset (map snd (groups st))"
    by (simp add: gs mset_js_sort mset_object_values)
  then have "mset (concat (map subOrders gs)) = mset (concat (map subOrders (map snd (groups st))))"
    by (rule mset_concat_cong)
  also have "\<dots> = mset (concat (map (\<lambda>k. filter (\<lambda>order. customer_key env order = k) ?S)
      (map fst (groups st))))"
    using each by (simp only: map_map comp_def)
  also have "\<dots> = mset (filter (\<lambda>order. customer_key env order \<in> set (map fst (groups st))) ?S)"
    using dist by (rule mset_concat_filters)
  also have "\<dots> = mset (filter (\<lambda>order. \<not> inherited_key (customer_key env order)) ?S)"
    using keys by (metis (mono_tags, lifting) filter_cong)
  also have "\<dots> = mset (filter (\<lambda>order. \<not> inherited_key (customer_key env order)) orders)"
    unfolding sortedRaw_def mset_filter mset_js_sort ..
  finally show ?thesis .
qed

lemma sum_numbers_finite:
  "\<forall>n \<in> set ns. isFinite n \<Longrightarrow> isFinite (sum_numbers ns)"
proof (induction ns rule: rev_induct)
  case Nil
  then show ?case by (simp add: sum_numbers_def)
next
  case (snoc n ns)
  then have f: "isFinite (sum_numbers ns)" "isFinite n" by simp_all
  from f(1) obtain a where a: "sum_numbers ns = Num a" by (auto dest: isFinite_Num)
  from f(2) obtain b where b: "n = Num b" by (auto dest: isFinite_Num)
  from a b show ?case by (simp add: sum_numbers_snoc)
qed

lemma groupedOrders_amount_finite:
  assumes ret: "groupedOrders env orders = Inr gs" and g: "g \<in> set gs"
    and fin: "\<forall>order \<in> set orders. isFinite (amount order)"
  shows "isFinite (amount g)"
proof -
  from groupedOrders_member [OF ret g] obtain k where ok: "grouped_ok g"
    and subs: "subOrders g = filter (\<lambda>order. customer_key env order = k) (sortedRaw env orders)"
    by blast
  have "set (subOrders g) \<subseteq> set orders"
    unfolding subs by (auto simp: sortedRaw_def set_js_sort)
  with fin have "\<forall>n \<in> set (map amount (subOrders g)). isFinite n" by auto
  then have "isFinite (sum_numbers (map amount (subOrders g)))" by (rule sum_numbers_finite)
  with ok show ?thesis by (simp add: grouped_ok_def)
qed

text \<open>
  When every amount is a finite number the grouped records come out in descending order
  of amount.
\<close>

lemma groupedOrders_descending:
  assumes ret: "groupedOrders env orders = Inr gs"
    and fin: "\<forall>order \<in> set orders. isFinite (amount order)"
  shows "sorted_wrt (\<lambda>a b. num_le (amount b) (amount a)) gs"
proof -
  from ret obtain st where inv: "loop_inv env (sortedRaw env orders) st" and
    gs: "gs = js_sort (\<lambda>a b. num_sub (amount b) (amount a)) (object_values (groups st))"
    by (rule groupedOrders_groups)
  have nn: "\<forall>g \<in> set gs. isFinite (amount g)"
    using groupedOrders_amount_finite [OF ret _ fin] by blast
  then have "\<forall>g \<in> set (object_values (groups st)). isFinite (amount g)"
    by (simp add: gs set_js_sort)
  then have "gs = sort_key (\<lambda>g. - the_num (amount g)) (object_values (groups st))"
    unfolding gs by (rule js_sort_descending)
  then have "sorted (map (\<lambda>g. - the_num (amount g)) gs)"
    by (simp add: sorted_sort_key)
  then have "sorted_wrt (\<lambda>a b. the_num (amount b) \<le> the_num (amount a)) gs"
    by (simp add: sorted_map)
  then show ?thesis
  proof (rule sorted_wrt_mono_rel [rotated])
    fix a b assume "a \<in> set gs" "b \<in> set gs" "the_num (amount b) \<le> the_num (amount a)"
    with nn show "num_le (amount b) (amount a)" by (simp add: num_le_the_num)
  qed
qed

lemma topCustomers_sorted:
  assumes "sorted_wrt (\<lambda>a b. num_le (amount b) (amount a)) gs"
  shows "sorted_wrt (\<lambda>a b. num_le (totalRevenue b) (totalRevenue a)) (topCustomers gs)"
  using sorted_wrt_take [OF assms, of 5]
  by (simp add: topCustomers_def sorted_wrt_map)

text \<open>
  What holds of every grouped record of the output: its sub-orders are the orders of one
  customer key, in processing order (the order of \<open>sortedRaw\<close>, which is ascending by
  date when every date is valid); its amount and its quantity are the sums over its
  sub-orders; its date is the date of the last sub-order processed, which no sub-order
  exceeds when every date is valid; its details are the dash-prefixed non-empty details of
  the sub-orders joined by newlines; its link is the first non-empty link of the
  sub-orders. The engine returns whenever no customer key is \<^verbatim>\<open>__proto__\<close>.
\<close>

lemma groupedOrders_record_invariants:
  "((\<forall>order \<in> set orders. customer_key env order \<noteq> js ''__proto__'')
       \<longrightarrow> (\<exists>gs. groupedOrders env orders = Inr gs))
   \<and> (groupedOrders env orders = Inr gs \<and> g \<in> set gs \<longrightarrow>
         subOrders g \<noteq> []
       \<and> (\<exists>k. subOrders g = filter (\<lambda>order. customer_key env order = k) (sortedRaw env orders))
       \<and> amount g = sum_numbers (map amount (subOrders g))
       \<and> quantity g = sum_numbers (map quantity (subOrders g))
       \<and> date g = date (last (subOrders g))
       \<and> ((\<forall>order \<in> set orders. getTime env (date order) \<noteq> NaN) \<longrightarrow>
            sorted (map (\<lambda>order. the_num (getTime env (date order))) (sortedRaw env orders))
            \<and> (\<forall>s \<in> set (subOrders g). num_le (getTime env (date s)) (getTime env (date g))))
       \<and> details g = dash_details (subOrders g)
       \<and> facebookLink g = first_link (subOrders g))"
proof (intro conjI impI)
  assume "\<forall>order \<in> set orders. customer_key env order \<noteq> js ''__proto__''"
  then show "\<exists>gs. groupedOrders env orders = Inr gs" by (rule groupedOrders_returns)
next
  assume a: "groupedOrders env orders = Inr gs \<and> g \<in> set gs"
  then have ret: "groupedOrders env orders = Inr gs" and g: "g \<in> set gs" by simp_all
  from groupedOrders_member [OF ret g] obtain k where ok: "grouped_ok g"
    and subs: "subOrders g = filter (\<lambda>order. customer_key env order = k) (sortedRaw env orders)"
    by blast
  from ok show "subOrders g \<noteq> []" "amount g = sum_numbers (map amount (subOrders g))"
    "quantity g = sum_numbers (map quantity (subOrders g))"
    "date g = date (last (subOrders g))"
    "details g = dash_details (subOrders g)"
    "facebookLink g = first_link (subOrders g)"
    by (simp_all add: grouped_ok_def)
  from subs show "\<exists>k. subOrders g = filter (\<lambda>order. customer_key env order = k) (sortedRaw env orders)"
    by blast
  {
    assume valid: "\<forall>order \<in> set orders. getTime env (date order) \<noteq> NaN"
    then show "sorted (map (\<lambda>order. the_num (getTime env (date order))) (sortedRaw env orders))"
      by (rule sortedRaw_sorted)
    from valid show "\<forall>s \<in> set (subOrders g). num_le (getTime env (date s)) (getTime env (date g))"
      using groupedOrders_latest [OF ret g] by blast
  }
qed

lemma sample_grouped:
  "groupedOrders sample_env sample_orders
     = Inr [seed_group (sample_orders ! 2),
            merge_order (seed_group (sample_orders ! 1)) (sample_orders ! 0)]"
  by code_simp

lemma sample_grouped_fields:
  "sum_numbers (map amount [sample_orders ! 1, sample_orders ! 0]) = Num 150"
  "dash_details [sample_orders ! 1, sample_orders ! 0] = js ''- ao''"
  "first_link [sample_orders ! 1, sample_orders ! 0] = js ''fb.com/an''"
  "date (merge_order (seed_group (sample_orders ! 1)) (sample_orders ! 0))
     = js ''2024-07-21T10:00:00.000Z''"
  by code_simp+

lemma key_of_Constructor:
  "customerName order = js ''Constructor'' \<Longrightarrow> customer_key env order = js ''constructor''"
  by (simp add: customer_key_def toLowerCase_def lower_known_def trim_def trimStart_def
      trimEnd_def is_white_space_def lower_unit_def js_def)

lemma key_of_constructor_spaced:
  "customerName order = js '' constructor '' \<Longrightarrow> customer_key env order = js ''constructor''"
  by (simp add: customer_key_def toLowerCase_def lower_known_def trim_def trimStart_def
      trimEnd_def is_white_space_def lower_unit_def js_def)

lemma key_of_CONSTRUCTOR:
  "customerName order = js ''CONSTRUCTOR'' \<Longrightarrow> customer_key env order = js ''constructor''"
  by (simp add: customer_key_def toLowerCase_def lower_known_def trim_def trimStart_def
      trimEnd_def is_white_space_def lower_unit_def js_def)

lemma group_loop_constructor:
  assumes "\<forall>order \<in> set orders. customer_key env order = js ''constructor''"
    and "map_of (groups st) (js ''constructor'') = None"
  shows "group_loop env st orders = Inr st"
  using assms by (induction orders) (simp_all add: group_step_def Let_def)

lemma groupedOrders_constructor:
  assumes "\<forall>order \<in> set orders. customer_key env order = js ''constructor''"
  shows "groupedOrders env orders = Inr []"
proof -
  have "\<forall>order \<in> set (sortedRaw env orders). customer_key env order = js ''constructor''"
    using assms by (simp add: sortedRaw_def set_js_sort)
  then have "group_loop env \<lparr>groups = [], proto_date = None, proto_details = None\<rparr>
      (sortedRaw env orders) = Inr \<lparr>groups = [], proto_date = None, proto_details = None\<rparr>"
    by (rule group_loop_constructor) simp
  then show ?thesis by (simp add: groupedOrders_def object_values_def js_sort_def)
qed

text \<open>
  C1. Two orders whose customer names differ only by white space at the ends and by letter
  case are not always merged into one grouped record. For the names "Constructor" and
  " constructor " (or "CONSTRUCTOR") both keys are \<^verbatim>\<open>constructor\<close>; the empty
  dictionary answers a read of that key with its inherited member, so both orders take the
  merge branch and neither is stored: the output is empty, where the claim promises one
  record with two sub-orders and the sum of both amounts. (Every grouped record that is
  produced satisfies the invariants of the claim, and two orders of one key other than
  \<^verbatim>\<open>constructor\<close> and \<^verbatim>\<open>__proto__\<close> are merged as the claim says: lemmas
  \<open>groupedOrders_record_invariants\<close>, \<open>groupedOrders_pair\<close>, \<open>groupedOrders_An_an\<close>.)
\<close>

theorem groupedOrders_variants_dropped:
  "customerName o1 = js ''Constructor''
   \<and> (customerName o2 = js '' constructor '' \<or> customerName o2 = js ''CONSTRUCTOR'') \<longrightarrow>
     customer_key env o1 = customer_key env o2 \<and> groupedOrders env [o1, o2] = Inr []"
proof
  assume "customerName o1 = js ''Constructor''
   \<and> (customerName o2 = js '' constructor '' \<or> customerName o2 = js ''CONSTRUCTOR'')"
  then have k: "customer_key env o1 = js ''constructor''" "customer_key env o2 = js ''constructor''"
    by (auto simp: key_of_Constructor key_of_constructor_spaced key_of_CONSTRUCTOR)
  then have "groupedOrders env [o1, o2] = Inr []" by (intro groupedOrders_constructor) simp
  with k show "customer_key env o1 = customer_key env o2 \<and> groupedOrders env [o1, o2] = Inr []"
    by simp
qed

theorem groupedOrders_variants_dropped_witness:
  "customerName (sample_order ''row-0'' ''2024-07-20T10:00:00.000Z'' 100 1 ''Constructor'' '''' '''')
     = js ''Constructor''
   \<and> customerName (sample_order ''row-1'' ''2024-07-21T10:00:00.000Z'' 50 2 '' constructor '' '''' '''')
     = js '' constructor ''
   \<and> groupedOrders sample_env
        [sample_order ''row-0'' ''2024-07-20T10:00:00.000Z'' 100 1 ''Constructor'' '''' '''',
         sample_order ''row-1'' ''2024-07-21T10:00:00.000Z'' 50 2 '' constructor '' '''' ''''] = Inr []
   \<and> customerName (sample_order ''row-1'' ''2024-07-21T10:00:00.000Z'' 50 2 ''CONSTRUCTOR'' '''' '''')
     = js ''CONSTRUCTOR''
   \<and> groupedOrders sample_env
        [sample_order ''row-0'' ''2024-07-20T10:00:00.000Z'' 100 1 ''Constructor'' '''' '''',
         sample_order ''row-1'' ''2024-07-21T10:00:00.000Z'' 50 2 ''CONSTRUCTOR'' '''' ''''] = Inr []"
  using groupedOrders_variants_dropped
    [of "sample_order ''row-0'' ''2024-07-20T10:00:00.000Z'' 100 1 ''Constructor'' '''' ''''"
        "sample_order ''row-1'' ''2024-07-21T10:00:00.000Z'' 50 2 '' constructor '' '''' ''''"
        sample_env]
    groupedOrders_variants_dropped
    [of "sample_order ''row-0'' ''2024-07-20T10:00:00.000Z'' 100 1 ''Constructor'' '''' ''''"
        "sample_order ''row-1'' ''2024-07-21T10:00:00.000Z'' 50 2 ''CONSTRUCTOR'' '''' ''''"
        sample_env]
  by (simp add: sample_order_def)
subsection \<open>Partition of the input\<close>

lemma groupedOrders_partition:
  assumes plain: "\<forall>order \<in> set orders. \<not> inherited_key (customer_key env order)"
    and ret: "groupedOrders env orders = Inr gs"
  shows "mset (concat (map subOrders gs)) = mset orders"
    and "sum_list (map (\<lambda>g. length (subOrders g)) gs) = length orders"
    and "\<forall>g \<in> set gs. order_id g = order_id (hd (subOrders g))"
proof -
  have "filter (\<lambda>order. \<not> inherited_key (customer_key env order)) orders = orders"
    using plain by simp
  with groupedOrders_subOrders_mset [OF ret]
  show m: "mset (concat (map subOrders gs)) = mset orders" by simp
  have "length (concat (map subOrders gs)) = length orders"
    using m by (metis size_mset)
  then show "sum_list (map (\<lambda>g. length (subOrders g)) gs) = length orders"
    by (simp add: length_concat comp_def)
  show "\<forall>g \<in> set gs. order_id g = order_id (hd (subOrders g))"
    using groupedOrders_member [OF ret] by (auto simp: grouped_ok_def)
qed

text \<open>
  C10. The grouping engine does not partition every input: an order whose customer name
  is "Constructor" (key \<^verbatim>\<open>constructor\<close>) finds the inherited member of that name in
  the empty dictionary, takes the merge branch, and ends up in no grouped record: the
  output for this single order is empty. (For inputs without the keys \<^verbatim>\<open>constructor\<close>
  and \<^verbatim>\<open>__proto__\<close> the sub-order lists do partition the input and each record keeps
  the id of its first sub-order: lemma \<open>groupedOrders_partition\<close>.)
\<close>

theorem groupedOrders_drops_constructor:
  "customerName order = js ''Constructor'' \<longrightarrow> groupedOrders env [order] = Inr []"
proof
  assume "customerName order = js ''Constructor''"
  then have k: "customer_key env order = js ''constructor''" by (rule key_of_Constructor)
  have s: "sortedRaw env [order] = [order]" by (simp add: sortedRaw_def js_sort_def)
  have "group_loop env \<lparr>groups = [], proto_date = None, proto_details = None\<rparr> [order]
      = Inr \<lparr>groups = [], proto_date = None, proto_details = None\<rparr>"
    using k by (simp add: group_step_def Let_def)
  then show "groupedOrders env [order] = Inr []"
    by (simp add: groupedOrders_def s object_values_def js_sort_def)
qed

theorem groupedOrders_drops_constructor_witness:
  "customerName (sample_order ''row-0'' ''2024-07-21T10:00:00.000Z'' 100 1 ''Constructor'' '''' '''')
     = js ''Constructor''
   \<and> groupedOrders sample_env
        [sample_order ''row-0'' ''2024-07-21T10:00:00.000Z'' 100 1 ''Constructor'' '''' ''''] = Inr []"
  using groupedOrders_drops_constructor
    [of "sample_order ''row-0'' ''2024-07-21T10:00:00.000Z'' 100 1 ''Constructor'' '''' ''''" sample_env]
  by (simp add: sample_order_def)

subsection \<open>Top customers\<close>

text \<open>
  For inputs whose amounts are all finite numbers the top customers are as the
  specification says: the first five grouped records, projected, at most five, in
  non-increasing order of revenue.
\<close>

lemma topCustomers_finite_ranked:
  assumes "groupedOrders env orders = Inr gs"
  shows "topCustomers gs
       = map (\<lambda>g. \<lparr>name = customerName g, totalOrders = quantity g,
                    totalRevenue = amount g, lastOrderDate = date g\<rparr>) (take 5 gs)"
    and "length (topCustomers gs) \<le> 5"
    and "\<forall>order \<in> set orders. isFinite (amount order) \<Longrightarrow>
          sorted_wrt (\<lambda>a b. num_le (totalRevenue b) (totalRevenue a)) (topCustomers gs)"
proof -
  show "topCustomers gs
       = map (\<lambda>g. \<lparr>name = customerName g, totalOrders = quantity g,
                    totalRevenue = amount g, lastOrderDate = date g\<rparr>) (take 5 gs)"
    by (simp add: topCustomers_def)
  show "length (topCustomers gs) \<le> 5" by (simp add: topCustomers_def)
  assume "\<forall>order \<in> set orders. isFinite (amount order)"
  with assms have "sorted_wrt (\<lambda>a b. num_le (amount b) (amount a)) gs"
    by (rule groupedOrders_descending)
  then show "sorted_wrt (\<lambda>a b. num_le (totalRevenue b) (totalRevenue a)) (topCustomers gs)"
    by (rule topCustomers_sorted)
qed

lemma sample_six_ranked:
  "groupedOrders sample_env sample_six
     = Inr (map seed_group [sample_six ! 1, sample_six ! 5, sample_six ! 3,
                            sample_six ! 2, sample_six ! 4, sample_six ! 0])"
  "map totalRevenue (topCustomers (map seed_group [sample_six ! 1, sample_six ! 5,
          sample_six ! 3, sample_six ! 2, sample_six ! 4, sample_six ! 0]))
     = [Num 60, Num 50, Num 40, Num 30, Num 20]"
  by code_simp+

text \<open>
  No arrangement of records ranks them when one revenue is NaN: a comparison with NaN is
  false, so a list of two or more records with a NaN amount is not in non-increasing
  order, whatever the order in which a sort leaves it.
\<close>

lemma num_le_NaN: "\<not> num_le NaN n" "\<not> num_le n NaN"
  by (cases n; simp)+

lemma nan_amount_unranked:
  assumes nan: "g \<in> set gs" "amount g = NaN" and two: "2 \<le> length gs"
  shows "\<not> sorted_wrt (\<lambda>a b. num_le (amount b) (amount a)) gs"
proof
  assume s: "sorted_wrt (\<lambda>a b. num_le (amount b) (amount a)) gs"
  from nan(1) obtain i where i: "i < length gs" "gs ! i = g" by (auto simp: in_set_conv_nth)
  from two i(1) obtain j where j: "j < length gs" "j \<noteq> i"
    by (metis One_nat_def Suc_1 Suc_le_lessD less_numeral_extra(1) less_trans zero_less_iff_neq_zero)
  show False
  proof (cases "i < j")
    case True
    with s j(1) have "num_le (amount (gs ! j)) (amount (gs ! i))"
      by (simp add: sorted_wrt_iff_nth_less)
    with i(2) nan(2) show False by (simp add: num_le_NaN)
  next
    case False
    with j(2) have "j < i" by simp
    with s i(1) have "num_le (amount (gs ! i)) (amount (gs ! j))"
      by (simp add: sorted_wrt_iff_nth_less)
    with i(2) nan(2) show False by (simp add: num_le_NaN)
  qed
qed

lemma nan_revenue_unranked:
  assumes "mset gs' = mset gs" and "g \<in> set gs" and "amount g = NaN" and "2 \<le> length gs"
  shows "\<not> sorted_wrt (\<lambda>a b. num_le (amount b) (amount a)) gs'"
proof -
  from assms(1) have "set gs' = set gs" "length gs' = length gs"
    by (metis set_mset_mset, metis size_mset)
  with assms(2-4) show ?thesis by (intro nan_amount_unranked [of g]) simp_all
qed

text \<open>
  C9. The top customers are not always in non-increasing order of revenue. The sheet
  \<open>nan_sheet\<close> has the amount cells 1, \<^verbatim>\<open>N/A.\<close> and 2; the currency parser makes NaN of the
  second (its missing guard), the record builder stores it, and the three customers come
  out with the revenues 1, NaN, 2: the third exceeds the first. (With a NaN among the
  amounts no arrangement is non-increasing, and the comparator of the sort is not a
  consistent ordering: lemma \<open>nan_revenue_unranked\<close>. The projection, the bound of five
  and the order for finite amounts hold: lemma \<open>topCustomers_finite_ranked\<close>.)
\<close>

theorem topCustomers_nan_unranked:
  "parse_sheet sample_env nan_sheet = Inr nan_orders
   \<and> map amount nan_orders = [Num 1, NaN, Num 2]
   \<and> groupedOrders sample_env nan_orders = Inr (map seed_group nan_orders)
   \<and> map totalRevenue (topCustomers (map seed_group nan_orders)) = [Num 1, NaN, Num 2]
   \<and> \<not> sorted_wrt (\<lambda>a b. num_le (totalRevenue b) (totalRevenue a))
         (topCustomers (map seed_group nan_orders))
   \<and> \<not> num_le (Num 2) (Num 1)"
  by code_simp
subsection \<open>Daily statistics\<close>

lemma assoc_set_fresh: "k \<notin> fst ` set kvs \<Longrightarrow> assoc_set k v kvs = kvs @ [(k, v)]"
  by (induction kvs) auto

lemma stats_step_inv:
  assumes inv: "stats_inv seen sm"
  shows "stats_inv (seen @ [order]) (stats_step sm order)"
proof (cases "map_of sm (date_key order)")
  case None
  let ?k = "date_key order"
  let ?s = "\<lparr>DailyStat.date = ?k, orderCount = num_add (Num 0) (quantity order),
            revenue = num_add (Num 0) (amount order)\<rparr>"
  from None have fresh: "?k \<notin> fst ` set sm" by (simp add: map_of_eq_None_iff)
  then have step: "stats_step sm order = sm @ [(?k, ?s)]"
    using None by (simp add: stats_step_def Let_def assoc_set_fresh)
  from inv have "fst ` set sm = date_key ` set seen" by (simp add: stats_inv_def)
  with fresh have "?k \<notin> date_key ` set seen" by simp
  then have "date_key o' \<noteq> ?k" if "o' \<in> set seen" for o'
    using that by (metis imageI)
  then have unseen: "filter (\<lambda>o'. date_key o' = ?k) seen = []"
    by (simp add: filter_empty_conv)
  have other: "?k \<noteq> k'" if "(k', s') \<in> set sm" for k' s'
    using fresh that by force
  show ?thesis
    unfolding step using inv fresh unseen other
    by (fastforce simp: stats_inv_def num_add_zero_left sum_numbers_single)
next
  case (Some c)
  let ?k = "date_key order"
  let ?s = "c\<lparr>orderCount := num_add (orderCount c) (quantity order),
              revenue := num_add (revenue c) (amount order)\<rparr>"
  from inv have dist: "distinct (map fst sm)" by (simp add: stats_inv_def)
  from Some have mem: "(?k, c) \<in> set sm" by (rule map_of_SomeD)
  then have key_in: "?k \<in> fst ` set sm" by force
  have step: "stats_step sm order = assoc_set ?k ?s sm"
    using Some by (simp add: stats_step_def Let_def)
  have elems: "set (assoc_set ?k ?s sm) = insert (?k, ?s) (set sm - {(?k, c)})"
    using dist Some by (rule assoc_set_elems)
  have c_ok: "DailyStat.date c = ?k"
    "orderCount c = sum_numbers (map quantity (filter (\<lambda>order. date_key order = ?k) seen))"
    "revenue c = sum_numbers (map amount (filter (\<lambda>order. date_key order = ?k) seen))"
    using inv mem by (auto simp: stats_inv_def)
  have others: "k' \<noteq> ?k" if "(k', s') \<in> set sm" "(k', s') \<noteq> (?k, c)" for k' s'
    using that dist mem by (metis eq_key_imp_eq_value)
  have "\<forall>(k, s) \<in> set (assoc_set ?k ?s sm).
          DailyStat.date s = k
          \<and> orderCount s = sum_numbers (map quantity (filter (\<lambda>order. date_key order = k) (seen @ [order])))
          \<and> revenue s = sum_numbers (map amount (filter (\<lambda>order. date_key order = k) (seen @ [order])))"
  proof (clarify)
    fix k' s'
    assume "(k', s') \<in> set (assoc_set ?k ?s sm)"
    then consider "k' = ?k" "s' = ?s" | "(k', s') \<in> set sm" "(k', s') \<noteq> (?k, c)"
      using elems by auto
    then show "DailyStat.date s' = k'
          \<and> orderCount s' = sum_numbers (map quantity (filter (\<lambda>order. date_key order = k') (seen @ [order])))
          \<and> revenue s' = sum_numbers (map amount (filter (\<lambda>order. date_key order = k') (seen @ [order])))"
    proof cases
      case 1
      with c_ok show ?thesis by (simp add: sum_numbers_snoc)
    next
      case 2
      then have "k' \<noteq> ?k" by (rule others)
      with 2 inv show ?thesis by (auto simp: stats_inv_def)
    qed
  qed
  moreover have "fst ` set (assoc_set ?k ?s sm) = date_key ` set (seen @ [order])"
  proof -
    have "fst ` set (assoc_set ?k ?s sm) = set (map fst (assoc_set ?k ?s sm))" by simp
    also have "\<dots> = set (map fst sm)" using key_in by (simp only: assoc_set_keys)
    also have "\<dots> = date_key ` set seen" using inv by (simp add: stats_inv_def)
    finally show ?thesis using key_in inv by (auto simp: stats_inv_def)
  qed
  ultimately show ?thesis
    unfolding step using dist key_in by (simp add: stats_inv_def assoc_set_keys)
qed

lemma stats_fold_inv: "stats_inv orders (foldl stats_step [] orders)"
proof (induction orders rule: rev_induct)
  case Nil
  then show ?case by (simp add: stats_inv_def)
next
  case (snoc order orders)
  then show ?case by (simp add: stats_step_inv)
qed

lemma dailyStats_buckets:
  "mset (dailyStats env orders) = mset (map snd (foldl stats_step [] orders))"
  by (simp add: dailyStats_def mset_js_sort)

lemma dailyStats_dates:
  "map DailyStat.date (map snd sm) = map fst sm" if "stats_inv seen sm"
  using that by (auto simp: stats_inv_def)

text \<open>
  C2. The daily statistics are computed from the individual orders of the list they are
  given (in App the date-filtered orders, not the grouped records): there is exactly one
  bucket per day key (the part of the date before \<^verbatim>\<open>T\<close>) of the input; the order
  count of a bucket is the sum of the quantities of the orders of that day and its
  revenue the sum of their amounts; and when every day key is a valid date the buckets
  are in ascending order of date.
\<close>

theorem dailyStats_buckets_sums:
  "(\<forall>s \<in> set (dailyStats env orders).
       orderCount s = sum_numbers (map quantity
                        (filter (\<lambda>order. date_key order = DailyStat.date s) orders))
     \<and> revenue s = sum_numbers (map amount
                        (filter (\<lambda>order. date_key order = DailyStat.date s) orders)))
   \<and> DailyStat.date ` set (dailyStats env orders) = date_key ` set orders
   \<and> distinct (map DailyStat.date (dailyStats env orders))
   \<and> ((\<forall>order \<in> set orders. getTime env (date_key order) \<noteq> NaN) \<longrightarrow>
        sorted (map (\<lambda>s. the_num (getTime env (DailyStat.date s))) (dailyStats env orders)))"
proof -
  let ?sm = "foldl stats_step [] orders"
  have inv: "stats_inv orders ?sm" by (rule stats_fold_inv)
  have set_eq: "set (dailyStats env orders) = snd ` set ?sm"
    by (simp add: dailyStats_def set_js_sort)
  have dates: "map DailyStat.date (map snd ?sm) = map fst ?sm"
    using inv by (rule dailyStats_dates)
  have a: "\<forall>s \<in> set (dailyStats env orders).
       orderCount s = sum_numbers (map quantity
                        (filter (\<lambda>order. date_key order = DailyStat.date s) orders))
     \<and> revenue s = sum_numbers (map amount
                        (filter (\<lambda>order. date_key order = DailyStat.date s) orders))"
    using inv unfolding set_eq stats_inv_def by fastforce
  have b: "DailyStat.date ` set (dailyStats env orders) = date_key ` set orders"
  proof -
    have "DailyStat.date ` set (dailyStats env orders) = set (map DailyStat.date (map snd ?sm))"
      by (simp add: set_eq image_image)
    also have "\<dots> = fst ` set ?sm" by (simp only: dates set_map)
    finally show ?thesis using inv by (simp add: stats_inv_def)
  qed
  have c: "distinct (map DailyStat.date (dailyStats env orders))"
  proof -
    have "mset (map DailyStat.date (dailyStats env orders)) = mset (map DailyStat.date (map snd ?sm))"
      unfolding mset_map dailyStats_buckets ..
    also have "\<dots> = mset (map fst ?sm)" by (simp only: dates)
    finally have "mset (map DailyStat.date (dailyStats env orders)) = mset (map fst ?sm)" .
    moreover have "distinct (map fst ?sm)" using inv by (simp add: stats_inv_def)
    ultimately show ?thesis by (metis mset_eq_imp_distinct_iff)
  qed
  have d: "sorted (map (\<lambda>s. the_num (getTime env (DailyStat.date s))) (dailyStats env orders))"
    if valid: "\<forall>order \<in> set orders. getTime env (date_key order) \<noteq> NaN"
  proof -
    have "\<forall>s \<in> set (map snd ?sm). getTime env (DailyStat.date s) \<noteq> NaN"
    proof
      fix s assume "s \<in> set (map snd ?sm)"
      then have "DailyStat.date s \<in> set (map DailyStat.date (map snd ?sm))" by force
      then have "DailyStat.date s \<in> fst ` set ?sm" by (simp only: dates set_map)
      with inv have "DailyStat.date s \<in> date_key ` set orders" by (simp add: stats_inv_def)
      with valid show "getTime env (DailyStat.date s) \<noteq> NaN" by auto
    qed
    then have "\<forall>s \<in> set (map snd ?sm). isFinite (getTime env (DailyStat.date s))"
      by (simp add: getTime_finite)
    then have "dailyStats env orders
        = sort_key (\<lambda>s. the_num (getTime env (DailyStat.date s))) (map snd ?sm)"
      unfolding dailyStats_def
      by (rule js_sort_ascending [where f = "\<lambda>s. getTime env (DailyStat.date s)"])
    then show ?thesis by (simp add: sorted_sort_key)
  qed
  from a b c d show ?thesis by blast
qed

lemma sample_daily_stats:
  "dailyStats sample_env sample_daily
     = [\<lparr>DailyStat.date = js ''2024-07-19'', orderCount = Num 1, revenue = Num 500\<rparr>,
        \<lparr>DailyStat.date = js ''2024-07-20'', orderCount = Num 2, revenue = Num 50\<rparr>,
        \<lparr>DailyStat.date = js ''2024-07-21'', orderCount = Num 5, revenue = Num 125\<rparr>]"
  by code_simp

lemma sample_daily_keys:
  "list_all (\<lambda>order. getTime sample_env (date_key order) \<noteq> NaN) sample_daily"
  by code_simp

theorem dailyStats_buckets_sums_witness:
  "dailyStats sample_env sample_daily
     = [\<lparr>DailyStat.date = js ''2024-07-19'', orderCount = Num 1, revenue = Num 500\<rparr>,
        \<lparr>DailyStat.date = js ''2024-07-20'', orderCount = Num 2, revenue = Num 50\<rparr>,
        \<lparr>DailyStat.date = js ''2024-07-21'', orderCount = Num 5, revenue = Num 125\<rparr>]
   \<and> list_all (\<lambda>order. getTime sample_env (date_key order) \<noteq> NaN) sample_daily
   \<and> sorted (map (\<lambda>s. the_num (getTime sample_env (DailyStat.date s)))
        (dailyStats sample_env sample_daily))
   \<and> list_all (\<lambda>s. revenue s = sum_numbers (map amount
          (filter (\<lambda>order. date_key order = DailyStat.date s) sample_daily)))
        (dailyStats sample_env sample_daily)
   \<and> sum_numbers (map amount
          (filter (\<lambda>order. date_key order = js ''2024-07-21'') sample_daily)) = Num 125
   \<and> sum_numbers (map quantity
          (filter (\<lambda>order. date_key order = js ''2024-07-21'') sample_daily)) = Num 5"
proof -
  have valid: "\<forall>order \<in> set sample_daily. getTime sample_env (date_key order) \<noteq> NaN"
    using sample_daily_keys by (simp add: list_all_iff)
  from dailyStats_buckets_sums [of sample_env sample_daily] valid
  have s: "sorted (map (\<lambda>s. the_num (getTime sample_env (DailyStat.date s)))
        (dailyStats sample_env sample_daily))"
    and r: "\<forall>s \<in> set (dailyStats sample_env sample_daily).
       revenue s = sum_numbers (map amount
          (filter (\<lambda>order. date_key order = DailyStat.date s) sample_daily))"
    by blast+
  from r have r': "list_all (\<lambda>s. revenue s = sum_numbers (map amount
          (filter (\<lambda>order. date_key order = DailyStat.date s) sample_daily)))
        (dailyStats sample_env sample_daily)"
    by (simp only: list_all_iff)
  have ev: "sum_numbers (map amount
          (filter (\<lambda>order. date_key order = js ''2024-07-21'') sample_daily)) = Num 125"
    "sum_numbers (map quantity
          (filter (\<lambda>order. date_key order = js ''2024-07-21'') sample_daily)) = Num 5"
    by code_simp+
  from s r' ev sample_daily_stats sample_daily_keys show ?thesis by (simp only: simp_thms)
qed

subsection \<open>Date-range filter\<close>

lemma filteredOrders_identity: "filteredOrders env [] [] orders = orders"
  by (simp add: filteredOrders_def)

lemma max_value_bound: "(8640000000000000::int) \<le> 2 ^ 1024 - 2 ^ 971"
  by simp

lemma filter_end_default:
  "num_le (getTime env s) (filter_end env []) \<longleftrightarrow> getTime env s \<noteq> NaN"
proof -
  from getTime_cases [of env s] show ?thesis
  proof
    assume "getTime env s = NaN"
    then show ?thesis by simp
  next
    assume "\<exists>t. valid_time t \<and> getTime env s = Num (of_int t)"
    then obtain t where t: "valid_time t" "getTime env s = Num (of_int t)" by blast
    then have "t \<le> 2 ^ 1024 - 2 ^ 971" using max_value_bound by (simp add: valid_time_def)
    then have "(of_int t :: rat) \<le> of_int (2 ^ 1024 - 2 ^ 971)" by (simp only: of_int_le_iff)
    with t show ?thesis by (simp add: filter_end_def MAX_VALUE_def)
  qed
qed

lemma setHours_local_day:
  assumes "0 \<le> localTZA env" and "localTZA env < msPerDay" and "ts mod msPerDay = 0"
    and "0 \<le> tod" and "tod < msPerDay" and "valid_time (ts + tod - localTZA env)"
    and "tod = h * 3600000 + mi * 60000 + sec * 1000 + ms"
  shows "setHours env (Some ts) h mi sec ms = Num (of_int (ts + tod - localTZA env))"
proof -
  have "(ts + localTZA env) div msPerDay * msPerDay = ts"
  proof -
    from assms(3) have "msPerDay dvd ts" by (simp add: dvd_eq_mod_eq_0)
    then obtain d where d: "ts = d * msPerDay" by (auto simp: dvd_def mult.commute)
    have "(d * msPerDay + localTZA env) div msPerDay = d"
      using assms(1,2) by (simp add: msPerDay_def)
    with d show ?thesis by simp
  qed
  with assms(6,7) show ?thesis
    by (simp add: setHours_def Let_def TimeClip_def)
qed

lemma filteredOrders_window:
  assumes tz: "0 \<le> localTZA env" "localTZA env < msPerDay"
    and s: "startDate \<noteq> []" "Date_parse env startDate = Some ts" "ts mod msPerDay = 0"
      "valid_time (ts - localTZA env)"
    and e: "endDate \<noteq> []" "Date_parse env endDate = Some te" "te mod msPerDay = 0"
      "valid_time (te + 86399999 - localTZA env)"
  shows "filteredOrders env startDate endDate orders
     = filter (\<lambda>order. case Date_parse env (date order) of
                          None \<Rightarrow> False
                        | Some t \<Rightarrow> ts - localTZA env \<le> t \<and> t \<le> te + 86399999 - localTZA env)
         orders"
proof -
  have day: "(0::int) < msPerDay" "(86399999::int) < msPerDay" by (simp_all add: msPerDay_def)
  have "setHours env (Some ts) 0 0 0 0 = Num (of_int (ts + 0 - localTZA env))"
    using tz s(3) _ day(1) by (rule setHours_local_day) (use s(4) in simp_all)
  then have st: "filter_start env startDate = Num (of_int (ts - localTZA env))"
    using s(1) by (simp add: filter_start_def s(2))
  have "setHours env (Some te) 23 59 59 999 = Num (of_int (te + 86399999 - localTZA env))"
    using tz e(3) _ day(2) by (rule setHours_local_day) (use e(4) in simp_all)
  then have en: "filter_end env endDate = Num (of_int (te + 86399999 - localTZA env))"
    using e(1) by (simp add: filter_end_def e(2))
  have "(num_le (filter_start env startDate) (getTime env d)
        \<and> num_le (getTime env d) (filter_end env endDate))
      = (case Date_parse env d of
           None \<Rightarrow> False
         | Some t \<Rightarrow> ts - localTZA env \<le> t \<and> t \<le> te + 86399999 - localTZA env)" for d
    unfolding st en getTime_def
    by (cases "Date_parse env d") (simp_all del: of_int_diff of_int_add)
  then show ?thesis using s(1) by (simp add: filteredOrders_def Let_def)
qed

text \<open>
  C4. The filter does not treat a missing start as the earliest instant: the default is
  the time value 0, so with only an end bound an order dated before 1970 is dropped
  although its date is not after the end bound. (With both bounds absent the input is
  returned as it is, a missing end bound admits every valid date, and for two bounds in an
  environment whose local time is not behind UTC the filter keeps exactly the orders
  between local midnight of the start day and the last millisecond of the end day:
  lemmas \<open>filteredOrders_identity\<close>, \<open>filter_end_default\<close>,
  \<open>filteredOrders_window\<close>. In an environment behind UTC both bounds fall one day
  early, since the bound is parsed as UTC midnight and then moved to the start or end
  of the local day that holds that instant.)
\<close>

theorem filteredOrders_start_default:
  "filter_start sample_env [] = Num 0
   \<and> getTime sample_env (date order_1969) = Num (- 14182980000)
   \<and> num_le (getTime sample_env (date order_1969)) (filter_end sample_env (js ''2024-01-01''))
   \<and> filteredOrders sample_env [] (js ''2024-01-01'') [order_1969] = []
   \<and> filter_start sample_env_west (js ''2024-07-21'')
       = getTime sample_env_west (js ''2024-07-20T05:00:00.000Z'')
   \<and> filter_end sample_env_west (js ''2024-07-21'')
       = getTime sample_env_west (js ''2024-07-21T04:59:59.999Z'')"
  by code_simp

theorem filteredOrders_start_default_witness:
  "length (filteredOrders sample_env [] (js ''2024-01-01'') [order_1969]) = 0"
  using filteredOrders_start_default by simp

lemma filteredOrders_window_sample:
  "filteredOrders sample_env (js ''2024-07-20'') (js ''2024-07-21'') sample_orders
     = [sample_orders ! 0, sample_orders ! 1]"
  by code_simp

subsection \<open>The date parser\<close>

lemma Date_parse_valid: "Date_parse env s = Some t \<Longrightarrow> valid_time t"
  by (auto simp: Date_parse_def TimeClip_def split: option.splits if_splits)

lemma toISOString_Some: "toISOString (Some t) = Inr (iso_string t)"
  by (simp add: toISOString_def)

lemma parseDate_time_valid:
  assumes "valid_time (now env)"
  shows "valid_time (parseDate_time env v)"
  using assms
  by (auto simp: parseDate_time_def dest: Date_parse_valid split: option.splits)

lemma parseDate_stages:
  assumes "valid_time (now env)"
  shows "parseDate env v = Inr (iso_string (parseDate_time env v))"
proof -
  from assms have n: "Date_now env = Some (now env)" by (simp add: Date_now_def TimeClip_def)
  show ?thesis
    by (auto simp: parseDate_def parseDate_time_def Let_def n toISOString_Some
        split: option.splits)
qed

lemma match_21_07_2024:
  "match_dmy (js ''21/07/2024'') = Some (js ''21'', js ''07'', js ''2024'')"
  "match_dmy (js ''21/07/2024 10:30:15'') = Some (js ''21'', js ''07'', js ''2024'')"
  by code_simp+

lemma iso_2024_07_21:
  "iso_parse (js ''2024'' @ [45] @ js ''07'' @ [45] @ js ''21'') = Some 1721520000000"
  "iso_string 1721520000000 = js ''2024-07-21T00:00:00.000Z''"
  by code_simp+

lemma parseDate_dmy:
  assumes "v \<noteq> []" and "match_dmy v = Some (p1, p2, p3)"
    and "Date_parse env (p3 @ [45] @ p2 @ [45] @ p1) = Some t"
  shows "parseDate env v = Inr (iso_string t)"
  using assms by (simp add: parseDate_def Let_def toISOString_Some)

lemma parseDate_21_07_2024:
  "parseDate env (js ''21/07/2024'') = Inr (js ''2024-07-21T00:00:00.000Z'')"
  "parseDate env (js ''21/07/2024 10:30:15'') = Inr (js ''2024-07-21T00:00:00.000Z'')"
proof -
  have "TimeClip 1721520000000 = Some 1721520000000"
    by (simp add: TimeClip_def valid_time_def)
  then have d: "Date_parse env (js ''2024'' @ [45] @ js ''07'' @ [45] @ js ''21'') = Some 1721520000000"
    by (simp only: Date_parse_def iso_2024_07_21 option.case)
  have ne: "js ''21/07/2024'' \<noteq> []" "js ''21/07/2024 10:30:15'' \<noteq> []" by (simp_all add: js_def)
  show "parseDate env (js ''21/07/2024'') = Inr (js ''2024-07-21T00:00:00.000Z'')"
    using parseDate_dmy [OF ne(1) match_21_07_2024(1) d] by (simp only: iso_2024_07_21)
  show "parseDate env (js ''21/07/2024 10:30:15'') = Inr (js ''2024-07-21T00:00:00.000Z'')"
    using parseDate_dmy [OF ne(2) match_21_07_2024(2) d] by (simp only: iso_2024_07_21)
qed

lemma digits_1_2_sound:
  "(p, r) \<in> set (digits_1_2 s) \<Longrightarrow>
     s = p @ r \<and> (length p = 1 \<or> length p = 2) \<and> list_all is_digit p"
  by (auto simp: digits_1_2_def list_all_length nth_take less_Suc_eq numeral_2_eq_2
      split: if_splits)

lemma after_sep_sound: "r \<in> set (after_sep s) \<Longrightarrow> \<exists>c. is_date_sep c \<and> s = c # r"
  by (cases s) (auto simp: after_sep_def split: if_splits)

lemma digits_4_sound:
  "p \<in> set (digits_4 s) \<Longrightarrow> length p = 4 \<and> list_all is_digit p \<and> (\<exists>r. s = p @ r)"
  by (auto simp: digits_4_def split: if_splits intro: exI [of _ "drop 4 s"])

lemma match_at_sound:
  assumes "(p1, p2, p3) \<in> set (match_at s)"
  shows "\<exists>c1 c2 post. s = p1 @ [c1] @ p2 @ [c2] @ p3 @ post
           \<and> is_date_sep c1 \<and> is_date_sep c2
           \<and> (length p1 = 1 \<or> length p1 = 2) \<and> list_all is_digit p1
           \<and> (length p2 = 1 \<or> length p2 = 2) \<and> list_all is_digit p2
           \<and> length p3 = 4 \<and> list_all is_digit p3"
proof -
  from assms obtain r1 r2 r3 r4 where
    a: "(p1, r1) \<in> set (digits_1_2 s)" and b: "r2 \<in> set (after_sep r1)"
    and c: "(p2, r3) \<in> set (digits_1_2 r2)" and d: "r4 \<in> set (after_sep r3)"
    and e: "p3 \<in> set (digits_4 r4)"
    by (auto simp: match_at_def)
  from digits_1_2_sound [OF a] digits_1_2_sound [OF c] after_sep_sound [OF b]
    after_sep_sound [OF d] digits_4_sound [OF e]
  show ?thesis by auto
qed

lemma match_dmy_sound:
  "match_dmy v = Some (p1, p2, p3) \<Longrightarrow>
     \<exists>pre c1 c2 post. v = pre @ p1 @ [c1] @ p2 @ [c2] @ p3 @ post
        \<and> is_date_sep c1 \<and> is_date_sep c2
        \<and> (length p1 = 1 \<or> length p1 = 2) \<and> list_all is_digit p1
        \<and> (length p2 = 1 \<or> length p2 = 2) \<and> list_all is_digit p2
        \<and> length p3 = 4 \<and> list_all is_digit p3"
proof (induction v)
  case Nil
  then show ?case by simp
next
  case (Cons c cs)
  show ?case
  proof (cases "match_at (c # cs)")
    case Nil
    with Cons.prems have "match_dmy cs = Some (p1, p2, p3)" by simp
    from Cons.IH [OF this] obtain pre c1 c2 post where
      "cs = pre @ p1 @ [c1] @ p2 @ [c2] @ p3 @ post \<and> is_date_sep c1 \<and> is_date_sep c2
        \<and> (length p1 = 1 \<or> length p1 = 2) \<and> list_all is_digit p1
        \<and> (length p2 = 1 \<or> length p2 = 2) \<and> list_all is_digit p2
        \<and> length p3 = 4 \<and> list_all is_digit p3" by blast
    then have "c # cs = (c # pre) @ p1 @ [c1] @ p2 @ [c2] @ p3 @ post \<and> is_date_sep c1 \<and> is_date_sep c2
        \<and> (length p1 = 1 \<or> length p1 = 2) \<and> list_all is_digit p1
        \<and> (length p2 = 1 \<or> length p2 = 2) \<and> list_all is_digit p2
        \<and> length p3 = 4 \<and> list_all is_digit p3" by simp
    then show ?thesis by blast
  next
    case (Cons m ms)
    with Cons.prems have "(p1, p2, p3) \<in> set (match_at (c # cs))" by simp
    from match_at_sound [OF this] obtain c1 c2 post where
      "c # cs = [] @ p1 @ [c1] @ p2 @ [c2] @ p3 @ post \<and> is_date_sep c1 \<and> is_date_sep c2
        \<and> (length p1 = 1 \<or> length p1 = 2) \<and> list_all is_digit p1
        \<and> (length p2 = 1 \<or> length p2 = 2) \<and> list_all is_digit p2
        \<and> length p3 = 4 \<and> list_all is_digit p3" by auto
    then show ?thesis by blast
  qed
qed

text \<open>
  C6. In an environment whose clock is a valid time value the date parser returns for
  every input, never throws, and its result is the ISO rendering (\<open>toISOString\<close>) of a
  valid time value: the one of \<open>parseDate_time\<close>, that is the day/month/year match
  first, the generic parse second, the current instant last. A match of the pattern is
  one or two digits, a separator (slash, dash or dot), one or two digits, a separator
  and four digits, anywhere in the value, so a trailing time is ignored. The value
  21/07/2024, with or without a time, gives 2024-07-21T00:00:00.000Z in every environment.
\<close>

theorem parseDate_total:
  "(valid_time (now env) \<longrightarrow>
      parseDate env v = Inr (iso_string (parseDate_time env v))
      \<and> valid_time (parseDate_time env v))
   \<and> (match_dmy v = Some (p1, p2, p3) \<longrightarrow>
        (\<exists>pre c1 c2 post. v = pre @ p1 @ [c1] @ p2 @ [c2] @ p3 @ post
            \<and> is_date_sep c1 \<and> is_date_sep c2
            \<and> (length p1 = 1 \<or> length p1 = 2) \<and> list_all is_digit p1
            \<and> (length p2 = 1 \<or> length p2 = 2) \<and> list_all is_digit p2
            \<and> length p3 = 4 \<and> list_all is_digit p3))
   \<and> parseDate env (js ''21/07/2024'') = Inr (js ''2024-07-21T00:00:00.000Z'')
   \<and> parseDate env (js ''21/07/2024 10:30:15'') = Inr (js ''2024-07-21T00:00:00.000Z'')"
  using parseDate_stages [of env v] parseDate_time_valid [of env v]
    match_dmy_sound [of v p1 p2 p3] parseDate_21_07_2024 [of env]
  by blast

lemma sample_now: "valid_time (now sample_env)"
  by code_simp

lemma sample_parseDate_time:
  "parseDate_time sample_env (js ''1/7/2024'') = 1721520000000"
  "parseDate_time sample_env (js ''2024-07-19T08:30:00.000Z'') = 1721377800000"
  "match_dmy (js ''1/7/2024'') = Some (js ''1'', js ''7'', js ''2024'')"
  "iso_string 1721377800000 = js ''2024-07-19T08:30:00.000Z''"
  by code_simp+

theorem parseDate_total_witness:
  "valid_time (now sample_env)
   \<and> parseDate sample_env (js ''2024-07-19T08:30:00.000Z'') = Inr (js ''2024-07-19T08:30:00.000Z'')
   \<and> parseDate sample_env (js ''1/7/2024'') = Inr (iso_string 1721520000000)
   \<and> match_dmy (js ''1/7/2024'') = Some (js ''1'', js ''7'', js ''2024'')
   \<and> (\<exists>pre c1 c2 post. js ''1/7/2024'' = pre @ js ''1'' @ [c1] @ js ''7'' @ [c2] @ js ''2024'' @ post
          \<and> is_date_sep c1 \<and> is_date_sep c2)"
proof -
  from parseDate_total [of sample_env "js ''2024-07-19T08:30:00.000Z''"] sample_now
  have a: "parseDate sample_env (js ''2024-07-19T08:30:00.000Z'')
      = Inr (iso_string (parseDate_time sample_env (js ''2024-07-19T08:30:00.000Z'')))"
    by blast
  from parseDate_total [of sample_env "js ''1/7/2024''" "js ''1''" "js ''7''" "js ''2024''"]
    sample_now sample_parseDate_time(3)
  have b: "parseDate sample_env (js ''1/7/2024'')
      = Inr (iso_string (parseDate_time sample_env (js ''1/7/2024'')))"
    and c: "\<exists>pre c1 c2 post. js ''1/7/2024'' = pre @ js ''1'' @ [c1] @ js ''7'' @ [c2] @ js ''2024'' @ post
          \<and> is_date_sep c1 \<and> is_date_sep c2"
    by blast+
  from a b c sample_now sample_parseDate_time show ?thesis by (simp only: simp_thms)
qed

subsection \<open>The record builder\<close>






















end
